theory Spec2Isabelle
  imports Main "HOL-Library.Word"
begin

chapter \<open>The embedding\<close>

section \<open>Append block allocator (append\_blk\_allocator.cpp)\<close>

text \<open>
  The allocator keeps three counters (\<open>m_last_append_offset\<close>, \<open>m_commit_offset\<close>,
  \<open>m_freeable_nblks\<close>), a dirty flag and a superblock.  The integer types
  \<open>blk_num_t\<close> and \<open>blk_count_t\<close> are declared outside the files at hand, so their
  widths are the type parameters \<open>'n\<close> and \<open>'c\<close>: every statement below holds for all
  widths.  Unsigned comparisons between the two types are comparisons of the values
  (\<open>unat\<close>); \<open>fetch_add\<close> and \<open>+\<close> wrap at the width of \<open>blk_num_t\<close>.
  \<open>max_blks_per_blkid()\<close> and \<open>get_total_blks()\<close> come from the base class and its
  configuration, which are not at hand either: they are fields of the model.  The
  \<open>reserved_blks\<close> hint is a \<open>std::optional\<close>.
\<close>

datatype BlkAllocStatus = SUCCESS | FAILED | SPACE_FULL

record (overloaded) ('n, 'c) BlkId =
  blk_num :: "'n word"
  blk_count :: "'c word"
  chunk_num :: nat

record blk_alloc_hints =
  reserved_blks :: "nat option"

record (overloaded) 'n append_blk_sb =
  sb_commit_offset :: "'n word"
  sb_freeable_nblks :: "'n word"

record (overloaded) 'n AppendBlkAllocator =
  total_blks :: "'n word"
  max_blks_per_blkid :: nat
  m_chunk_id :: nat
  m_last_append_offset :: "'n word"
  m_commit_offset :: "'n word"
  m_freeable_nblks :: "'n word"
  m_is_dirty :: bool
  m_sb :: "'n append_blk_sb"
  sb_writes :: "'n append_blk_sb list"

text \<open>The constructor with \<open>need_format = true\<close>: the three counters are zeroed and the
  superblock is initialised from them.\<close>

definition format_allocator :: "'n::len word \<Rightarrow> nat \<Rightarrow> nat \<Rightarrow> 'n AppendBlkAllocator" where
  "format_allocator tot maxb chunk =
     \<lparr>total_blks = tot, max_blks_per_blkid = maxb, m_chunk_id = chunk,
      m_last_append_offset = 0, m_commit_offset = 0, m_freeable_nblks = 0,
      m_is_dirty = False,
      m_sb = \<lparr>sb_commit_offset = 0, sb_freeable_nblks = 0\<rparr>,
      sb_writes = []\<rparr>"

definition on_meta_blk_found ::
  "'n::len AppendBlkAllocator \<Rightarrow> 'n append_blk_sb \<Rightarrow> 'n AppendBlkAllocator" where
  "on_meta_blk_found a sb =
     a\<lparr>m_sb := sb,
       m_last_append_offset := sb_commit_offset sb,
       m_commit_offset := sb_commit_offset sb,
       m_freeable_nblks := sb_freeable_nblks sb\<rparr>"

definition get_used_blks :: "'n::len AppendBlkAllocator \<Rightarrow> 'n word" where
  "get_used_blks a = m_last_append_offset a"

definition available_blks :: "'n::len AppendBlkAllocator \<Rightarrow> 'n word" where
  "available_blks a = total_blks a - get_used_blks a"

text \<open>The available count after the \<open>reserved_blks\<close> hint, as the first lines of
  \<open>alloc\<close> compute it.\<close>

definition avail_after_hint :: "'n::len AppendBlkAllocator \<Rightarrow> blk_alloc_hints \<Rightarrow> 'n word" where
  "avail_after_hint a hint =
     (case reserved_blks hint of
        None \<Rightarrow> available_blks a
      | Some r \<Rightarrow> if unat (available_blks a) > r then available_blks a - of_nat r else 0)"

text \<open>\<open>alloc\<close> returns the status, the value written to \<open>out_bid\<close> (\<open>None\<close> when the
  out-parameter is not written) and the allocator afterwards.\<close>

definition alloc ::
  "'n::len AppendBlkAllocator \<Rightarrow> 'c::len word \<Rightarrow> blk_alloc_hints \<Rightarrow>
     BlkAllocStatus \<times> ('n, 'c) BlkId option \<times> 'n AppendBlkAllocator" where
  "alloc a nblks hint =
     (let avail_blks = avail_after_hint a hint in
      if unat avail_blks < unat nblks then (SPACE_FULL, None, a)
      else if unat nblks > max_blks_per_blkid a then (FAILED, None, a)
      else (SUCCESS,
            Some \<lparr>blk_num = m_last_append_offset a, blk_count = nblks, chunk_num = m_chunk_id a\<rparr>,
            a\<lparr>m_last_append_offset := m_last_append_offset a + ucast nblks\<rparr>))"

definition is_blk_alloced :: "'n::len AppendBlkAllocator \<Rightarrow> ('n, 'c::len) BlkId \<Rightarrow> bool" where
  "is_blk_alloced a bid = (blk_num bid < get_used_blks a)"

datatype alloc_error = DbgAssertFailed

text \<open>\<open>reserve_on_disk\<close>: the debug assertion is a branch of its own; the
  compare-exchange loop, run without interference, is one comparison and one store.\<close>

definition reserve_on_disk ::
  "'n::len AppendBlkAllocator \<Rightarrow> ('n, 'c::len) BlkId \<Rightarrow> alloc_error + 'n AppendBlkAllocator" where
  "reserve_on_disk a blkid =
     (if \<not> is_blk_alloced a blkid then Inl DbgAssertFailed
      else let new_offset = blk_num blkid + ucast (blk_count blkid);
               cur_offset = m_commit_offset a
           in if cur_offset \<ge> new_offset then Inr a
              else Inr (a\<lparr>m_commit_offset := new_offset, m_is_dirty := True\<rparr>))"

definition reserve_on_cache ::
  "'n::len AppendBlkAllocator \<Rightarrow> ('n, 'c::len) BlkId \<Rightarrow> 'n AppendBlkAllocator" where
  "reserve_on_cache a blkid =
     (let new_offset = blk_num blkid + ucast (blk_count blkid);
          cur_offset = m_last_append_offset a
      in if cur_offset \<ge> new_offset then a
         else a\<lparr>m_last_append_offset := new_offset\<rparr>)"

definition cp_flush :: "'n::len AppendBlkAllocator \<Rightarrow> 'n AppendBlkAllocator" where
  "cp_flush a =
     (if m_is_dirty a
      then let sb = \<lparr>sb_commit_offset = m_commit_offset a, sb_freeable_nblks = m_freeable_nblks a\<rparr>
           in a\<lparr>m_is_dirty := False, m_sb := sb, sb_writes := sb_writes a @ [sb]\<rparr>
      else a)"

definition free_blk :: "'n::len AppendBlkAllocator \<Rightarrow> ('n, 'c::len) BlkId \<Rightarrow> 'n AppendBlkAllocator" where
  "free_blk a bid =
     a\<lparr>m_freeable_nblks := m_freeable_nblks a + ucast (blk_count bid), m_is_dirty := True\<rparr>"

text \<open>A call of the allocator's interface, and a run of calls from a state.  A failed
  debug assertion ends the run.\<close>

datatype ('cnt, 'bid) alloc_op =
    Alloc 'cnt blk_alloc_hints
  | ReserveOnDisk 'bid
  | ReserveOnCache 'bid
  | Free 'bid
  | CpFlush

fun apply_alloc_op ::
  "'n::len AppendBlkAllocator \<Rightarrow> ('c::len word, ('n, 'c) BlkId) alloc_op \<Rightarrow>
     alloc_error + 'n AppendBlkAllocator" where
  "apply_alloc_op a (Alloc nblks hint) = Inr (snd (snd (alloc a nblks hint)))"
| "apply_alloc_op a (ReserveOnDisk bid) = reserve_on_disk a bid"
| "apply_alloc_op a (ReserveOnCache bid) = Inr (reserve_on_cache a bid)"
| "apply_alloc_op a (Free bid) = Inr (free_blk a bid)"
| "apply_alloc_op a CpFlush = Inr (cp_flush a)"

fun run_alloc_ops ::
  "'n::len AppendBlkAllocator \<Rightarrow> ('c::len word, ('n, 'c) BlkId) alloc_op list \<Rightarrow>
     alloc_error + 'n AppendBlkAllocator" where
  "run_alloc_ops a [] = Inr a"
| "run_alloc_ops a (x # xs) =
     (case apply_alloc_op a x of Inl e \<Rightarrow> Inl e | Inr a' \<Rightarrow> run_alloc_ops a' xs)"

text \<open>The available block count in the specification's words: \<open>total_blks\<close> minus
  \<open>last_append_offset\<close> (at the width of \<open>blk_num_t\<close>), less the caller's reserved
  blocks, stopping at zero (subtraction on \<open>nat\<close> does).\<close>

definition hint_reserved :: "blk_alloc_hints \<Rightarrow> nat" where
  "hint_reserved hint = (case reserved_blks hint of None \<Rightarrow> 0 | Some r \<Rightarrow> r)"

definition spec_avail_blks :: "'n::len AppendBlkAllocator \<Rightarrow> blk_alloc_hints \<Rightarrow> nat" where
  "spec_avail_blks a hint = unat (total_blks a - m_last_append_offset a) - hint_reserved hint"

text \<open>
  The calls whose argument lies inside what the allocator has handed out: a
  \<open>reserve_on_disk\<close> of a \<open>BlkId\<close> that ends at or below \<open>last_append_offset\<close> (as
  every \<open>BlkId\<close> returned by \<open>alloc\<close> or reserved on the cache before does), and a
  \<open>reserve_on_cache\<close> of a \<open>BlkId\<close> that ends inside the chunk.  \<open>ops_in_range\<close> asks
  this of every call of a run, at the state the call is made in.
\<close>

fun op_in_range :: "'n::len AppendBlkAllocator \<Rightarrow> ('c::len word, ('n, 'c) BlkId) alloc_op \<Rightarrow> bool" where
  "op_in_range a (ReserveOnDisk bid) =
     (unat (blk_num bid) + unat (blk_count bid) \<le> unat (m_last_append_offset a))"
| "op_in_range a (ReserveOnCache bid) =
     (unat (blk_num bid) + unat (blk_count bid) \<le> unat (total_blks a))"
| "op_in_range a _ = True"

fun ops_in_range :: "'n::len AppendBlkAllocator \<Rightarrow> ('c::len word, ('n, 'c) BlkId) alloc_op list \<Rightarrow> bool" where
  "ops_in_range a [] = True"
| "ops_in_range a (x # xs) =
     (op_in_range a x \<and>
      (case apply_alloc_op a x of Inl e \<Rightarrow> True | Inr a' \<Rightarrow> ops_in_range a' xs))"

text \<open>The invariant carried through a run: the disk offset is at most the cache offset,
  which is at most the size of the chunk.\<close>

definition alloc_inv :: "'n::len AppendBlkAllocator \<Rightarrow> bool" where
  "alloc_inv a = (m_commit_offset a \<le> m_last_append_offset a \<and> m_last_append_offset a \<le> total_blks a)"

section \<open>Write-back cache (writeBack\_cache.hpp)\<close>

text \<open>
  Requests, node buffers and memory vectors are heap objects that the code shares through
  intrusive pointers.  The model keeps one store for each kind, indexed by a number that
  plays the pointer; allocation takes the next unused index.  An index that was never
  allocated reads as the object its default constructor builds.  \<open>btree_cp\<close> is declared
  outside the files at hand; the specification gives \<open>cp_id\<close> as an unsigned 64-bit value.
  \<open>m_dirty_buf_cnt\<close> is a 64-bit counter and \<open>dependent_cnt\<close> an \<open>int\<close> counter; both are
  integers here, so a decrement below zero is a negative value and not zero, as the
  wrapped value in the code is not zero.
\<close>

datatype writeback_req_state = WB_REQ_INIT | WB_REQ_WAITING | WB_REQ_SENT | WB_REQ_COMPL

datatype btree_status_t = success | cp_mismatch

datatype wb_error = WbAssertFailed | WbNullDeref

record btree_cp =
  cp_id :: "64 word"

record writeback_req =
  req_state :: writeback_req_state
  req_bid :: nat
  req_bcp :: "btree_cp option"
  req_bn :: "nat option"
  req_q :: "nat list"
  dependent_cnt :: int
  req_mem :: "nat option"

record btree_node =
  node_id :: nat
  bn_bcp :: "btree_cp option"
  bn_req :: "nat \<Rightarrow> nat option"
  bn_memvec :: nat
  cache_size :: nat

text \<open>The cache with its stores.  \<open>blkstore_writes\<close> lists the requests handed to
  \<open>m_blkstore->write\<close>, \<open>cp_comp_calls\<close> the calls of \<open>m_cp_comp_cb\<close>, each with the
  value \<open>m_dirty_buf_cnt\<close> has for the checkpoint's slot when the call is made.
  \<open>flush_iter\<close> holds, for a slot, the locals of a running \<open>flush_buffers\<close>: its
  checkpoint and the part of the request list the iterator has still to visit.\<close>

record wb_cache =
  reqs :: "nat \<Rightarrow> writeback_req"
  n_reqs :: nat
  nodes :: "nat \<Rightarrow> btree_node"
  memvecs :: "nat \<Rightarrow> 8 word list"
  n_memvecs :: nat
  m_req_list :: "nat \<Rightarrow> nat list"
  m_dirty_buf_cnt :: "nat \<Rightarrow> int"
  flush_iter :: "nat \<Rightarrow> (btree_cp \<times> nat list) option"
  blkstore_writes :: "nat list"
  cp_comp_calls :: "(btree_cp \<times> int) list"

definition MAX_CP_CNT :: "64 word" where
  "MAX_CP_CNT = 2"

text \<open>\<open>int cp_id = bcp->cp_id % MAX_CP_CNT\<close>\<close>

definition cp_slot :: "btree_cp \<Rightarrow> nat" where
  "cp_slot bcp = unat (cp_id bcp mod MAX_CP_CNT)"

text \<open>\<open>writeback_req()\<close> and \<open>WriteBackCacheBuffer()\<close>\<close>

definition make_request :: writeback_req where
  "make_request = \<lparr>req_state = WB_REQ_INIT, req_bid = 0, req_bcp = None, req_bn = None,
     req_q = [], dependent_cnt = 1, req_mem = None\<rparr>"

definition make_object :: btree_node where
  "make_object = \<lparr>node_id = 0, bn_bcp = None, bn_req = (\<lambda>_. None), bn_memvec = 0, cache_size = 0\<rparr>"

text \<open>The constructor \<open>WriteBackCache(blkstore, align_size, cb, trigger_cp_cb)\<close>\<close>

definition WriteBackCache :: wb_cache where
  "WriteBackCache = \<lparr>reqs = (\<lambda>_. make_request), n_reqs = 0, nodes = (\<lambda>_. make_object),
     memvecs = (\<lambda>_. []), n_memvecs = 0,
     m_req_list = (\<lambda>_. []), m_dirty_buf_cnt = (\<lambda>_. 0), flush_iter = (\<lambda>_. None),
     blkstore_writes = [], cp_comp_calls = []\<rparr>"

text \<open>\<open>memcpy(dst, src, n)\<close> on the content of two buffers.\<close>

definition memcpy :: "8 word list \<Rightarrow> 8 word list \<Rightarrow> nat \<Rightarrow> 8 word list" where
  "memcpy dst src n = take n src @ drop n dst"

text \<open>\<open>refresh_buf\<close>.  The buffer that \<open>hs_iobuf_alloc\<close> returns has unspecified content;
  the model fills it with zeros before the \<open>memcpy\<close>.\<close>

definition refresh_buf ::
  "wb_cache \<Rightarrow> nat \<Rightarrow> bool \<Rightarrow> btree_cp option \<Rightarrow> btree_status_t \<times> wb_cache" where
  "refresh_buf st bn is_write_modifiable bcp =
     (case (bcp, bn_bcp (nodes st bn)) of
        (None, _) \<Rightarrow> (success, st)
      | (_, None) \<Rightarrow> (success, st)
      | (Some cp, Some ncp) \<Rightarrow>
          if \<not> is_write_modifiable then
            (if cp_id ncp > cp_id cp then (cp_mismatch, st) else (success, st))
          else if cp_id ncp = cp_id cp then (success, st)
          else if cp_id ncp > cp_id cp then (cp_mismatch, st)
          else
            let prev_cp_id = unat ((cp_id cp - 1) mod MAX_CP_CNT);
                req = bn_req (nodes st bn) prev_cp_id
            in if (case req of None \<Rightarrow> True | Some r \<Rightarrow> req_state (reqs st r) = WB_REQ_COMPL)
               then (success, st)
               else
                 let node = nodes st bn;
                     outb = memvecs st (bn_memvec node);
                     mem = memcpy (replicate (cache_size node) 0) outb (length outb);
                     mvec = n_memvecs st
                 in (success,
                     st\<lparr>memvecs := (memvecs st)(mvec := mem),
                        n_memvecs := Suc mvec,
                        nodes := (nodes st)(bn := node\<lparr>bn_memvec := mvec\<rparr>)\<rparr>))"

text \<open>The previous-slot request of a node for a checkpoint exists and is not in state
  \<open>COMPL\<close>.\<close>

definition prev_slot_pending :: "wb_cache \<Rightarrow> nat \<Rightarrow> btree_cp \<Rightarrow> bool" where
  "prev_slot_pending st bn cp =
     (case bn_req (nodes st bn) (unat ((cp_id cp - 1) mod 2)) of
        None \<Rightarrow> False
      | Some r \<Rightarrow> req_state (reqs st r) \<noteq> WB_REQ_COMPL)"

text \<open>A node with a pending write for checkpoint 4 in slot 0, used to run \<open>refresh_buf\<close>.\<close>

definition cache_with_pending_node :: wb_cache where
  "cache_with_pending_node =
     WriteBackCache\<lparr>
       reqs := (\<lambda>_. make_request)
         (0 := \<lparr>req_state = WB_REQ_SENT, req_bid = 3, req_bcp = Some \<lparr>cp_id = 4\<rparr>,
                req_bn = Some 3, req_q = [], dependent_cnt = 0, req_mem = Some 0\<rparr>),
       n_reqs := 1,
       nodes := (\<lambda>_. make_object)
         (3 := \<lparr>node_id = 3, bn_bcp = Some \<lparr>cp_id = 4\<rparr>, bn_req = (\<lambda>_. None)(0 := Some 0),
                bn_memvec = 0, cache_size = 2\<rparr>),
       memvecs := (\<lambda>_. [])(0 := [1, 2]),
       n_memvecs := 1,
       m_dirty_buf_cnt := (\<lambda>_. 0)(0 := 1)\<rparr>"

section \<open>Log group layout (log\_dev.hpp)\<close>

text \<open>
  \<open>logid_t\<close> and \<open>logstore_seq_num_t\<close> are signed 64-bit integers; the model uses \<open>int\<close>
  and writes the conversion to \<open>uint32_t\<close> out where the code converts.  The unsigned
  32-bit fields are words.  \<open>offset\<close> is a 31-bit field of a \<open>uint32_t\<close>.
\<close>

type_synonym logid_t = int
type_synonym crc32_t = "32 word"

definition LOG_GROUP_HDR_MAGIC :: "32 word" where
  "LOG_GROUP_HDR_MAGIC = 0xF00D1E"

definition LOG_GROUP_FOOTER_MAGIC :: "32 word" where
  "LOG_GROUP_FOOTER_MAGIC = 0xB00D1E"

definition dma_address_boundary :: nat where
  "dma_address_boundary = 512"

definition initial_read_size :: nat where
  "initial_read_size = 4096"

record serialized_log_record =
  rec_size :: "32 word"
  rec_offset :: "32 word"
  is_inlined :: bool
  store_seq_num :: int
  rec_store_id :: "32 word"

definition get_inlined :: "serialized_log_record \<Rightarrow> bool" where
  "get_inlined r = is_inlined r"

record log_group_header =
  magic :: "32 word"
  version :: "32 word"
  n_log_records :: "32 word"
  start_log_idx :: logid_t
  group_size :: "32 word"
  inline_data_offset :: "32 word"
  oob_data_offset :: "32 word"
  footer_offset :: "32 word"
  prev_grp_crc :: crc32_t
  cur_grp_crc :: crc32_t
  logdev_id :: "32 word"

text \<open>The packed header: ten 32-bit fields and one 64-bit field.\<close>

definition sizeof_log_group_header :: nat where
  "sizeof_log_group_header = 48"

text \<open>
  A log group in memory, as the code sees it through a \<open>log_group_header*\<close>: the header,
  the record slots that follow it, and the bytes from the start of the group onwards
  (offsets in the header and in the slots count from there).
\<close>

record log_group_view =
  hdr :: log_group_header
  record_area :: "serialized_log_record list"
  group_bytes :: "8 word list"

datatype logdev_error =
    AssertFailed
  | OutsideRecordArea "32 word"
  | NoSuchRecord logid_t

text \<open>\<open>nth_record(const uint32_t n)\<close>: the slot \<open>n\<close> places after the header; \<open>None\<close> when
  that address lies beyond the slots of the group.\<close>

definition nth_record :: "log_group_view \<Rightarrow> 32 word \<Rightarrow> serialized_log_record option" where
  "nth_record g n = (if unat n < length (record_area g) then Some (record_area g ! unat n) else None)"

text \<open>A \<open>sisl::blob\<close> into the group: where it starts, counted from the start of the
  group, and its size.\<close>

record group_blob =
  blob_offset :: nat
  blob_size :: "32 word"

definition blob_bytes :: "log_group_view \<Rightarrow> group_blob \<Rightarrow> 8 word list" where
  "blob_bytes g b = take (unat (blob_size b)) (drop (blob_offset b) (group_bytes g))"

text \<open>\<open>log_group_header::data(idx)\<close>.  The argument of \<open>nth_record\<close> is
  \<open>start_log_idx - idx\<close>, converted from \<open>int64_t\<close> to \<open>uint32_t\<close>; the blob starts at
  \<open>inline_area()\<close> for an inlined record and at \<open>oob_area() + lr->offset\<close> otherwise.\<close>

definition data :: "log_group_view \<Rightarrow> logid_t \<Rightarrow> logdev_error + (32 word \<times> group_blob)" where
  "data g idx =
     (if \<not> (idx \<ge> start_log_idx (hdr g)) then Inl AssertFailed
      else if \<not> (idx - start_log_idx (hdr g) < uint (n_log_records (hdr g))) then Inl AssertFailed
      else
        let n = (word_of_int (start_log_idx (hdr g) - idx) :: 32 word) in
        case nth_record g n of
          None \<Rightarrow> Inl (OutsideRecordArea n)
        | Some lr \<Rightarrow>
            Inr (n, \<lparr>blob_offset =
                        (if get_inlined lr then unat (inline_data_offset (hdr g))
                         else unat (oob_data_offset (hdr g)) + unat (rec_offset lr)),
                     blob_size = rec_size lr\<rparr>))"

section \<open>Reading a record (log\_dev.cpp)\<close>

record logdev_key =
  key_idx :: logid_t
  dev_offset :: nat

definition pread :: "8 word list \<Rightarrow> nat \<Rightarrow> nat \<Rightarrow> 8 word list" where
  "pread dev n off = take n (drop off dev)"

definition round_down :: "nat \<Rightarrow> nat \<Rightarrow> nat" where
  "round_down x m = (x div m) * m"

definition round_up :: "nat \<Rightarrow> nat \<Rightarrow> nat" where
  "round_up x m = ((x + m - 1) div m) * m"

text \<open>
  \<open>LogDev::read(key)\<close>, on the group that lies at \<open>key.dev_offset\<close>: \<open>g\<close> gives the
  header and the slots that the first \<open>pread\<close> brings in, and \<open>group_bytes g\<close> the bytes of the
  device from that offset on.  The checksum function is the library's \<open>crc32_ieee\<close> with
  its seed.  The result is the slot number used and the bytes copied into the buffer.
\<close>

definition read ::
  "(8 word list \<Rightarrow> crc32_t) \<Rightarrow> log_group_view \<Rightarrow> logid_t \<Rightarrow> logdev_error + (32 word \<times> 8 word list)" where
  "read crc32_ieee g idx =
     (let rbuf = pread (group_bytes g) initial_read_size 0; header = hdr g in
      if magic header \<noteq> LOG_GROUP_HDR_MAGIC then Inl AssertFailed
      else if \<not> (start_log_idx header \<le> idx) then Inl AssertFailed
      else if \<not> (start_log_idx header + uint (n_log_records header) > idx) then Inl AssertFailed
      else if \<not> (group_size header \<ge> inline_data_offset header) then Inl AssertFailed
      else if unat (group_size header) \<le> initial_read_size \<and>
              cur_grp_crc header \<noteq>
                crc32_ieee (take (unat (group_size header) - sizeof_log_group_header)
                              (drop sizeof_log_group_header rbuf))
           then Inl AssertFailed
      else
        let n = (word_of_int (idx - start_log_idx header) :: 32 word) in
        case nth_record g n of
          None \<Rightarrow> Inl (OutsideRecordArea n)
        | Some rec \<Rightarrow>
            let data_offset = unat (rec_offset rec + (if is_inlined rec then 0 else oob_data_offset header));
                b_size = unat (rec_size rec)
            in if data_offset + b_size < initial_read_size
               then Inr (n, take b_size (drop data_offset rbuf))
               else
                 let rounded_data_offset = round_down data_offset dma_address_boundary;
                     rounded_size = round_up (b_size + data_offset - rounded_data_offset) dma_address_boundary;
                     rbuf2 = pread (group_bytes g) rounded_size rounded_data_offset
                 in Inr (n, take b_size (drop (data_offset - rounded_data_offset) rbuf2)))"

text \<open>A group of two inlined records with log indexes 10 and 11.\<close>

definition two_record_group :: log_group_view where
  "two_record_group =
     \<lparr>hdr = \<lparr>magic = LOG_GROUP_HDR_MAGIC, version = 0, n_log_records = 2, start_log_idx = 10,
              group_size = 512, inline_data_offset = 88, oob_data_offset = 96, footer_offset = 96,
              prev_grp_crc = 0, cur_grp_crc = 7, logdev_id = 0\<rparr>,
      record_area =
        [\<lparr>rec_size = 3, rec_offset = 88, is_inlined = True, store_seq_num = 0, rec_store_id = 1\<rparr>,
         \<lparr>rec_size = 2, rec_offset = 91, is_inlined = True, store_seq_num = 1, rec_store_id = 1\<rparr>],
      group_bytes = replicate 88 0 @ [1, 2, 3, 4, 5] @ replicate 419 0\<rparr>"

section \<open>Log records and log groups in memory (log\_dev.hpp)\<close>

record io_blob =
  blob_data :: "8 word list"
  blob_addr :: nat
  blob_aligned :: bool

record log_record =
  rec_data :: io_blob
  rec_context :: nat
  store_id :: "32 word"
  seq_num :: int

text \<open>The settings read through \<open>HS_DYNAMIC_CONFIG\<close> and the constant
  \<open>max_time_between_flush_us\<close>, none of which is declared in the files at hand.\<close>

record logstore_config =
  optimal_inline_data_size :: nat
  flush_threshold_size :: int
  max_time_between_flush_us :: nat

definition sizeof_serialized_log_record :: nat where
  "sizeof_serialized_log_record = 20"

definition sizeof_log_group_footer :: nat where
  "sizeof_log_group_footer = 24"

definition serialized_size :: "log_record \<Rightarrow> nat" where
  "serialized_size r = sizeof_serialized_log_record + length (blob_data (rec_data r))"

definition is_size_inlineable :: "logstore_config \<Rightarrow> nat \<Rightarrow> nat \<Rightarrow> bool" where
  "is_size_inlineable cfg sz flush_size_multiple =
     (sz < optimal_inline_data_size cfg \<or> sz mod flush_size_multiple \<noteq> 0)"

definition is_inlineable :: "logstore_config \<Rightarrow> log_record \<Rightarrow> nat \<Rightarrow> bool" where
  "is_inlineable cfg r flush_size_multiple =
     (is_size_inlineable cfg (length (blob_data (rec_data r))) flush_size_multiple \<or>
      blob_addr (rec_data r) mod flush_size_multiple \<noteq> 0 \<or>
      \<not> blob_aligned (rec_data r))"

text \<open>\<open>LogGroup\<close>: the header at the start of its buffer, the record slots written so far,
  the bytes of the inline area, the out-of-band payloads (one \<open>iovec\<close> each) and the
  members of the class.\<close>

record LogGroup =
  lg_header :: log_group_header
  m_record_slots :: "serialized_log_record list"
  inline_area :: "8 word list"
  oob_iovecs :: "8 word list list"
  m_cur_buf_len :: nat
  m_inline_data_pos :: nat
  m_oob_data_pos :: nat
  m_nrecords :: nat
  m_max_records :: nat
  m_actual_data_size :: nat
  m_flush_log_idx_from :: int
  m_flush_log_idx_upto :: int
  m_log_dev_offset :: nat
  m_flush_multiple_size :: nat

definition inline_log_buf_size :: nat where
  "inline_log_buf_size = 512 * 16"

text \<open>\<open>can_accomodate\<close> as the header has it.  No function in the files at hand calls it.\<close>

definition can_accomodate :: "LogGroup \<Rightarrow> log_record \<Rightarrow> bool" where
  "can_accomodate lg r = (m_nrecords lg \<le> m_max_records lg)"

text \<open>The header a \<open>log_group_header()\<close> constructor leaves in a zeroed buffer.\<close>

definition empty_header :: log_group_header where
  "empty_header = \<lparr>magic = LOG_GROUP_HDR_MAGIC, version = 0, n_log_records = 0, start_log_idx = 0,
     group_size = 0, inline_data_offset = 0, oob_data_offset = 0, footer_offset = 0,
     prev_grp_crc = 0, cur_grp_crc = 0, logdev_id = 0\<rparr>"

text \<open>\<open>LogGroup()\<close> followed by \<open>start(flush_size_multiple, align_size)\<close>: a group with the
  inline buffer of \<open>inline_log_buf_size\<close> bytes and nothing in it.\<close>

definition new_log_group :: "nat \<Rightarrow> LogGroup" where
  "new_log_group flush_size_multiple =
     \<lparr>lg_header = empty_header, m_record_slots = [], inline_area = [], oob_iovecs = [],
      m_cur_buf_len = inline_log_buf_size, m_inline_data_pos = 0, m_oob_data_pos = 0,
      m_nrecords = 0, m_max_records = 0, m_actual_data_size = 0,
      m_flush_log_idx_from = 0, m_flush_log_idx_upto = 0, m_log_dev_offset = 0,
      m_flush_multiple_size = flush_size_multiple\<rparr>"

text \<open>
  Modelled from the spec: the bodies of \<open>LogGroup::reset\<close>, \<open>create_overflow_buf\<close>,
  \<open>add_record\<close> and \<open>finish\<close> are missing from the files at hand (the header declares
  them).  \<open>reset(max_records)\<close>: "zero header, place the record-slot array, initialise
  inline/OOB write cursors"; the inline area starts after the slot array.
\<close>

definition reset :: "LogGroup \<Rightarrow> nat \<Rightarrow> LogGroup" where
  "reset lg max_records =
     lg\<lparr>lg_header := empty_header, m_record_slots := [], inline_area := [], oob_iovecs := [],
        m_inline_data_pos := sizeof_log_group_header + max_records * sizeof_serialized_log_record,
        m_oob_data_pos := 0,
        m_nrecords := 0, m_max_records := max_records, m_actual_data_size := 0\<rparr>"

text \<open>Modelled from the spec: \<open>create_overflow_buf(min_needed)\<close> "grows the inline
  buffer".\<close>

definition create_overflow_buf :: "LogGroup \<Rightarrow> nat \<Rightarrow> LogGroup" where
  "create_overflow_buf lg min_needed = lg\<lparr>m_cur_buf_len := max (m_cur_buf_len lg) min_needed\<rparr>"

text \<open>
  Modelled from the spec: \<open>add_record(rec, log_idx)\<close>: "reject (return false) if
  \<open>n_records == max_records\<close> or if the record would overflow allocated buffers (in which
  case \<open>create_overflow_buf\<close> grows the inline buffer).  Otherwise write the serialized
  record slot, copy or reference the payload, update cursors."  A record is inlined by
  \<open>is_inlineable\<close>; an inlined payload is copied to the inline area, another one is carried
  in an \<open>iovec\<close> of its own.  The first record gives the header its \<open>start_log_idx\<close>.
\<close>

definition add_record ::
  "logstore_config \<Rightarrow> LogGroup \<Rightarrow> log_record \<Rightarrow> logid_t \<Rightarrow> bool \<times> LogGroup" where
  "add_record cfg lg r log_idx =
     (let sz = length (blob_data (rec_data r));
          inl = is_inlineable cfg r (m_flush_multiple_size lg)
      in if m_nrecords lg = m_max_records lg then (False, lg)
         else if inl \<and> m_inline_data_pos lg + sz > m_cur_buf_len lg
         then (False, create_overflow_buf lg (m_inline_data_pos lg + sz))
         else
           let slot = \<lparr>rec_size = of_nat sz,
                       rec_offset = of_nat (if inl then m_inline_data_pos lg else m_oob_data_pos lg),
                       is_inlined = inl, store_seq_num = seq_num r, rec_store_id = store_id r\<rparr>;
               lg1 = lg\<lparr>lg_header := (if m_nrecords lg = 0
                                        then (lg_header lg)\<lparr>start_log_idx := log_idx\<rparr>
                                        else lg_header lg),
                        m_record_slots := m_record_slots lg @ [slot],
                        m_nrecords := m_nrecords lg + 1,
                        m_actual_data_size := m_actual_data_size lg + sz\<rparr>
           in (True,
               if inl
               then lg1\<lparr>inline_area := inline_area lg @ blob_data (rec_data r),
                        m_inline_data_pos := m_inline_data_pos lg + sz\<rparr>
               else lg1\<lparr>oob_iovecs := oob_iovecs lg @ [blob_data (rec_data r)],
                        m_oob_data_pos := m_oob_data_pos lg + sz\<rparr>))"

text \<open>
  Modelled from the spec: \<open>finish(logdev_id, prev_crc)\<close>: "stamp header (magic, version,
  start_log_idx, counts, offsets, \<open>prev_group_crc = prev_crc\<close>), compute \<open>cur_grp_crc\<close>
  over everything from the end of the header through the end of the OOB area, stamp the
  footer".  The checksum is the library's CRC-32 of those bytes; it is the parameter
  \<open>compute_crc\<close>, applied to the group with every other header field stamped.
\<close>

definition finish ::
  "(LogGroup \<Rightarrow> crc32_t) \<Rightarrow> LogGroup \<Rightarrow> 32 word \<Rightarrow> crc32_t \<Rightarrow> LogGroup" where
  "finish compute_crc lg ldev_id prev_crc =
     (let inline_off = sizeof_log_group_header + m_max_records lg * sizeof_serialized_log_record;
          oob_off = round_up (m_inline_data_pos lg) (m_flush_multiple_size lg);
          footer_off = oob_off + m_oob_data_pos lg;
          h = (lg_header lg)\<lparr>magic := LOG_GROUP_HDR_MAGIC, version := 0,
                n_log_records := of_nat (m_nrecords lg),
                inline_data_offset := of_nat inline_off,
                oob_data_offset := of_nat oob_off,
                footer_offset := of_nat footer_off,
                group_size := of_nat (round_up (footer_off + sizeof_log_group_footer)
                                        (m_flush_multiple_size lg)),
                prev_grp_crc := prev_crc,
                logdev_id := ldev_id\<rparr>;
          lg1 = lg\<lparr>lg_header := h\<rparr>
      in lg1\<lparr>lg_header := h\<lparr>cur_grp_crc := compute_crc lg1\<rparr>\<rparr>)"

text \<open>The group a run of \<open>add_record\<close> calls builds, stopping at the first rejection.\<close>

fun fill_group ::
  "logstore_config \<Rightarrow> LogGroup \<Rightarrow> (logid_t \<times> log_record) list \<Rightarrow> LogGroup" where
  "fill_group cfg lg [] = lg"
| "fill_group cfg lg ((idx, r) # rs) =
     (case add_record cfg lg r idx of
        (True, lg') \<Rightarrow> fill_group cfg lg' rs
      | (False, lg') \<Rightarrow> lg')"
text \<open>Settings and a record for running the functions: the record is the specification's
  \<open>(sid = 7, seq = 0, payload = "hello")\<close>.\<close>

definition test_config :: logstore_config where
  "test_config = \<lparr>optimal_inline_data_size = 512, flush_threshold_size = 112,
     max_time_between_flush_us = 300\<rparr>"

definition hello_record :: log_record where
  "hello_record = \<lparr>rec_data = \<lparr>blob_data = [104, 101, 108, 108, 111], blob_addr = 4096,
     blob_aligned = True\<rparr>, rec_context = 0, store_id = 7, seq_num = 0\<rparr>"

section \<open>The log device (log\_dev.cpp)\<close>

text \<open>
  \<open>sisl::StreamTracker\<close> is a library outside the repository.  The model keeps what the
  log device uses of it: the records created, by log index, the indexes marked complete,
  and one past the highest index created.  \<open>at\<close> gives \<open>None\<close> where the library throws.
  \<open>foreach_active(start, cb)\<close> visits the records from \<open>start\<close> on while there is one at
  each index; \<open>active_run\<close> lists them.
\<close>

record StreamTracker =
  tr_slots :: "int \<Rightarrow> log_record option"
  tr_completed :: "int \<Rightarrow> bool"
  tr_end :: int

definition new_tracker :: "int \<Rightarrow> StreamTracker" where
  "new_tracker start_idx = \<lparr>tr_slots = (\<lambda>_. None), tr_completed = (\<lambda>_. False), tr_end = start_idx\<rparr>"

definition create :: "StreamTracker \<Rightarrow> int \<Rightarrow> log_record \<Rightarrow> StreamTracker" where
  "create tr idx r = tr\<lparr>tr_slots := (tr_slots tr)(idx := Some r), tr_end := max (tr_end tr) (idx + 1)\<rparr>"

definition at :: "StreamTracker \<Rightarrow> int \<Rightarrow> log_record option" where
  "at tr idx = tr_slots tr idx"

definition complete :: "StreamTracker \<Rightarrow> int \<Rightarrow> int \<Rightarrow> StreamTracker" where
  "complete tr from_idx upto_idx =
     tr\<lparr>tr_completed := (\<lambda>i. tr_completed tr i \<or> (from_idx \<le> i \<and> i \<le> upto_idx))\<rparr>"

fun active_prefix :: "StreamTracker \<Rightarrow> int list \<Rightarrow> (int \<times> log_record) list" where
  "active_prefix tr [] = []"
| "active_prefix tr (i # is) =
     (case tr_slots tr i of None \<Rightarrow> [] | Some r \<Rightarrow> (i, r) # active_prefix tr is)"

definition active_run :: "StreamTracker \<Rightarrow> int \<Rightarrow> (int \<times> log_record) list" where
  "active_run tr start_idx = active_prefix tr [start_idx..tr_end tr - 1]"

text \<open>What the log device calls or stores that an observer sees, in order: a call of
  \<open>m_append_comp_cb\<close> with its arguments (store id, key of the record, key of the flush,
  \<open>nremaining_in_batch\<close>, context), a call of a callback queued by \<open>try_lock_flush\<close>, and
  the store of \<open>false\<close> to \<open>m_is_flushing\<close>.\<close>

datatype logdev_event =
    AppendCompCb "32 word" logdev_key logdev_key int nat
  | BlockedFlushCb nat
  | FlushLockReleased

text \<open>\<open>LogDev\<close>.  \<open>vdev_tail\<close> is the journal device's allocation cursor, \<open>vdev_writes\<close> the
  groups handed to \<open>pwritev\<close> in order, \<open>inflight\<close> those whose completion has not been
  delivered yet, \<open>events\<close> the observable calls.\<close>

record LogDev =
  m_log_records :: StreamTracker
  m_log_idx :: int
  m_pending_flush_size :: int
  m_logdev_id :: "32 word"
  m_is_flushing :: bool
  m_last_flush_time :: nat
  m_last_flush_idx :: int
  m_last_crc :: crc32_t
  m_block_flush_q :: "nat list"
  m_flush_size_multiple :: nat
  vdev_tail :: nat
  vdev_writes :: "LogGroup list"
  inflight :: "LogGroup list"
  events :: "logdev_event list"

text \<open>Modelled from the spec: the constant \<open>INVALID_CRC32_VALUE\<close> is declared outside the
  files at hand; "the first group written after format has \<open>prev_group_crc = 0\<close>".\<close>

definition INVALID_CRC32_VALUE :: crc32_t where
  "INVALID_CRC32_VALUE = 0"

text \<open>The members as the class initialises them, after \<open>start(format = true)\<close>.\<close>

definition start_format :: "32 word \<Rightarrow> nat \<Rightarrow> nat \<Rightarrow> LogDev" where
  "start_format ldev_id flush_size_multiple now =
     \<lparr>m_log_records = new_tracker 0, m_log_idx = 0, m_pending_flush_size = 0,
      m_logdev_id = ldev_id, m_is_flushing = False, m_last_flush_time = now,
      m_last_flush_idx = - 1, m_last_crc = INVALID_CRC32_VALUE, m_block_flush_q = [],
      m_flush_size_multiple = flush_size_multiple,
      vdev_tail = 0, vdev_writes = [], inflight = [], events = []\<rparr>"

definition flush_data_threshold_size :: "logstore_config \<Rightarrow> int" where
  "flush_data_threshold_size cfg = flush_threshold_size cfg - int sizeof_log_group_header"

definition make_log_group :: "LogDev \<Rightarrow> nat \<Rightarrow> LogGroup" where
  "make_log_group st estimated_records =
     reset (new_log_group (m_flush_size_multiple st)) estimated_records"

text \<open>The callback that \<open>prepare_flush\<close> gives to \<open>foreach_active\<close>: add the record, note its
  index, go on; stop at the first record the group rejects.\<close>

fun flush_records ::
  "logstore_config \<Rightarrow> LogGroup \<times> int \<Rightarrow> (int \<times> log_record) list \<Rightarrow> LogGroup \<times> int" where
  "flush_records cfg (lg, flushing_upto_idx) [] = (lg, flushing_upto_idx)"
| "flush_records cfg (lg, flushing_upto_idx) ((idx, r) # rs) =
     (case add_record cfg lg r idx of
        (True, lg') \<Rightarrow> flush_records cfg (lg', idx) rs
      | (False, lg') \<Rightarrow> (lg', flushing_upto_idx))"

text \<open>
  \<open>prepare_flush\<close>.  The source file calls \<open>lg->finish()\<close>; the header at hand declares
  \<open>finish(logdev_id, prev_crc)\<close>, and the specification has \<open>prepare_flush\<close> "finalise the
  group (stamps \<open>prev_crc = m_last_crc\<close>)": the call is \<open>finish(m_logdev_id, m_last_crc)\<close>.
  \<open>alloc_blk\<close> of the journal device returns its cursor and advances it by the size asked.
  The parameter is an \<open>int32_t\<close>: the assertion reads it as a signed value, and
  \<open>(uint32_t)estimated_records\<close> as an unsigned one.
\<close>

definition prepare_flush ::
  "logstore_config \<Rightarrow> (LogGroup \<Rightarrow> crc32_t) \<Rightarrow> LogDev \<Rightarrow> 32 word \<Rightarrow> logdev_error + (LogGroup \<times> LogDev)" where
  "prepare_flush cfg compute_crc st estimated_records =
     (if \<not> sint estimated_records > 0 then Inl AssertFailed
      else
        let lg0 = make_log_group st (unat estimated_records);
            (lg1, flushing_upto_idx) =
               flush_records cfg (lg0, 0) (active_run (m_log_records st) (m_last_flush_idx st + 1));
            lg2 = finish compute_crc lg1 (m_logdev_id st) (m_last_crc st);
            lg3 = lg2\<lparr>m_flush_log_idx_from := m_last_flush_idx st + 1,
                      m_flush_log_idx_upto := flushing_upto_idx,
                      m_log_dev_offset := vdev_tail st\<rparr>;
            st' = st\<lparr>vdev_tail := vdev_tail st + unat (group_size (lg_header lg3))\<rparr>
        in if \<not> oob_data_offset (lg_header lg3) > 0 then Inl AssertFailed
           else Inr (lg3, st'))"

text \<open>\<open>do_flush\<close> hands the group to \<open>pwritev\<close>; the write completes later.\<close>

definition do_flush :: "LogDev \<Rightarrow> LogGroup \<Rightarrow> LogDev" where
  "do_flush st lg = st\<lparr>vdev_writes := vdev_writes st @ [lg], inflight := inflight st @ [lg]\<rparr>"

text \<open>The test of \<open>flush_if_needed\<close> on the pending size after the new record is added,
  with the clock reading \<open>now\<close>.\<close>

definition flush_due :: "logstore_config \<Rightarrow> LogDev \<Rightarrow> int \<Rightarrow> nat \<Rightarrow> bool" where
  "flush_due cfg st pending_sz now =
     (pending_sz \<ge> flush_data_threshold_size cfg \<or>
      (pending_sz \<noteq> 0 \<and> now - m_last_flush_time st > max_time_between_flush_us cfg))"

text \<open>\<open>flush_if_needed(new_record_size, new_idx)\<close>; the defaults are \<open>0\<close> and \<open>-1\<close>.  The
  \<open>fetch_add\<close> and the compare-and-swap are atomic steps; the call as a whole runs here
  without another thread in between.  The estimate \<open>new_idx - m_last_flush_idx + 4\<close> is a
  64-bit value that the call of \<open>prepare_flush(int32_t)\<close> narrows to its low 32 bits.\<close>

definition flush_if_needed ::
  "logstore_config \<Rightarrow> (LogGroup \<Rightarrow> crc32_t) \<Rightarrow> LogDev \<Rightarrow> 32 word \<Rightarrow> int \<Rightarrow> nat \<Rightarrow> logdev_error + LogDev" where
  "flush_if_needed cfg compute_crc st new_record_size new_idx now =
     (let pending_sz = m_pending_flush_size st + uint new_record_size;
          st1 = st\<lparr>m_pending_flush_size := pending_sz\<rparr>
      in if flush_due cfg st1 pending_sz now then
           (if \<not> m_is_flushing st1 then
              let st2 = st1\<lparr>m_is_flushing := True\<rparr>;
                  new_idx' = (if new_idx = - 1 then m_log_idx st2 else new_idx)
              in case prepare_flush cfg compute_crc st2
                        (word_of_int (new_idx' - m_last_flush_idx st2 + 4)) of
                   Inl e \<Rightarrow> Inl e
                 | Inr (lg, st3) \<Rightarrow>
                     Inr (do_flush
                            (st3\<lparr>m_pending_flush_size :=
                                   m_pending_flush_size st3 - int (m_actual_data_size lg),
                                 m_last_flush_time := now\<rparr>) lg)
            else Inr st1)
         else Inr st1)"

definition unlock_flush ::
  "logstore_config \<Rightarrow> (LogGroup \<Rightarrow> crc32_t) \<Rightarrow> LogDev \<Rightarrow> nat \<Rightarrow> logdev_error + LogDev" where
  "unlock_flush cfg compute_crc st now =
     (let st1 = (if length (m_block_flush_q st) > 0
                 then st\<lparr>events := events st @ map BlockedFlushCb (m_block_flush_q st),
                         m_block_flush_q := []\<rparr>
                 else st);
          st2 = st1\<lparr>m_is_flushing := False, events := events st1 @ [FlushLockReleased]\<rparr>
      in flush_if_needed cfg compute_crc st2 0 (- 1) now)"

text \<open>The loop of \<open>on_flush_completion\<close> over the indexes of the group.\<close>

fun append_completions :: "LogDev \<Rightarrow> LogGroup \<Rightarrow> logdev_key \<Rightarrow> int list \<Rightarrow> logdev_error + LogDev" where
  "append_completions st lg flush_ld_key [] = Inr st"
| "append_completions st lg flush_ld_key (idx # idxs) =
     (case at (m_log_records st) idx of
        None \<Rightarrow> Inl (NoSuchRecord idx)
      | Some record \<Rightarrow>
          append_completions
            (st\<lparr>events := events st @
                   [AppendCompCb (store_id record)
                      \<lparr>key_idx = idx, dev_offset = m_log_dev_offset lg\<rparr> flush_ld_key
                      (m_flush_log_idx_upto lg - idx) (rec_context record)]\<rparr>)
            lg flush_ld_key idxs)"

text \<open>\<open>on_flush_completion\<close> up to, and without, its last statement \<open>unlock_flush()\<close>.\<close>

definition flush_completed :: "LogDev \<Rightarrow> LogGroup \<Rightarrow> logdev_error + LogDev" where
  "flush_completed st lg =
     (let st1 = st\<lparr>m_log_records :=
                      complete (m_log_records st) (m_flush_log_idx_from lg) (m_flush_log_idx_upto lg),
                    m_last_flush_idx := m_flush_log_idx_upto lg\<rparr>;
          flush_ld_key = \<lparr>key_idx = m_last_flush_idx st1, dev_offset = m_log_dev_offset lg\<rparr>
      in case append_completions st1 lg flush_ld_key [m_flush_log_idx_from lg..m_flush_log_idx_upto lg] of
           Inl e \<Rightarrow> Inl e
         | Inr st2 \<Rightarrow> Inr (st2\<lparr>m_last_crc := cur_grp_crc (lg_header lg)\<rparr>))"

definition on_flush_completion ::
  "logstore_config \<Rightarrow> (LogGroup \<Rightarrow> crc32_t) \<Rightarrow> LogDev \<Rightarrow> LogGroup \<Rightarrow> nat \<Rightarrow> logdev_error + LogDev" where
  "on_flush_completion cfg compute_crc st lg now =
     (case flush_completed st lg of
        Inl e \<Rightarrow> Inl e
      | Inr st3 \<Rightarrow> unlock_flush cfg compute_crc st3 now)"

text \<open>\<open>append_async\<close> returns the log index and the device afterwards.\<close>

definition append_async ::
  "logstore_config \<Rightarrow> (LogGroup \<Rightarrow> crc32_t) \<Rightarrow> LogDev \<Rightarrow> 32 word \<Rightarrow> int \<Rightarrow> io_blob \<Rightarrow> nat \<Rightarrow> nat \<Rightarrow>
     logdev_error + (int \<times> LogDev)" where
  "append_async cfg compute_crc st sid seq d cb_context now =
     (let idx = m_log_idx st;
          st1 = st\<lparr>m_log_idx := idx + 1,
                   m_log_records := create (m_log_records st) idx
                      \<lparr>rec_data = d, rec_context = cb_context, store_id = sid, seq_num = seq\<rparr>\<rparr>
      in case flush_if_needed cfg compute_crc st1 (of_nat (length (blob_data d))) idx now of
           Inl e \<Rightarrow> Inl e
         | Inr st2 \<Rightarrow> Inr (idx, st2))"

text \<open>\<open>process_logdev_completions\<close> for a write: the device reports the oldest write in
  flight as done.\<close>

definition process_logdev_completions ::
  "logstore_config \<Rightarrow> (LogGroup \<Rightarrow> crc32_t) \<Rightarrow> LogDev \<Rightarrow> nat \<Rightarrow> logdev_error + LogDev" where
  "process_logdev_completions cfg compute_crc st now =
     (case inflight st of
        [] \<Rightarrow> Inl AssertFailed
      | lg # rest \<Rightarrow> on_flush_completion cfg compute_crc (st\<lparr>inflight := rest\<rparr>) lg now)"

text \<open>What happens to a log device between \<open>start\<close> and \<open>stop\<close>: an append, a tick of the
  flush timer, the completion of a write; each with the clock reading at that moment.\<close>

datatype logdev_op =
    Append "32 word" int io_blob nat
  | TimerTick
  | WriteDone

fun logdev_step ::
  "logstore_config \<Rightarrow> (LogGroup \<Rightarrow> crc32_t) \<Rightarrow> LogDev \<Rightarrow> logdev_op \<times> nat \<Rightarrow> logdev_error + LogDev" where
  "logdev_step cfg crc st (Append sid seq d ctx, now) =
     (case append_async cfg crc st sid seq d ctx now of Inl e \<Rightarrow> Inl e | Inr (idx, st') \<Rightarrow> Inr st')"
| "logdev_step cfg crc st (TimerTick, now) = flush_if_needed cfg crc st 0 (- 1) now"
| "logdev_step cfg crc st (WriteDone, now) = process_logdev_completions cfg crc st now"

fun logdev_run ::
  "logstore_config \<Rightarrow> (LogGroup \<Rightarrow> crc32_t) \<Rightarrow> LogDev \<Rightarrow> (logdev_op \<times> nat) list \<Rightarrow> logdev_error + LogDev" where
  "logdev_run cfg crc st [] = Inr st"
| "logdev_run cfg crc st (x # xs) =
     (case logdev_step cfg crc st x of Inl e \<Rightarrow> Inl e | Inr st' \<Rightarrow> logdev_run cfg crc st' xs)"

text \<open>A stand-in for the checksum when the functions are run: it tells groups apart by
  their number of records and their first log index.\<close>

definition toy_crc :: "LogGroup \<Rightarrow> crc32_t" where
  "toy_crc lg = 1000 + 16 * word_of_int (start_log_idx (lg_header lg)) + of_nat (m_nrecords lg)"

text \<open>The checksum chain over the groups written: each group's \<open>prev_grp_crc\<close> is the
  \<open>cur_grp_crc\<close> of the group before it, and the first one's is the given value.\<close>

fun crc_chained :: "crc32_t \<Rightarrow> LogGroup list \<Rightarrow> bool" where
  "crc_chained prev [] = True"
| "crc_chained prev (g # gs) =
     (prev_grp_crc (lg_header g) = prev \<and> crc_chained (cur_grp_crc (lg_header g)) gs)"

definition last_crc :: "LogGroup list \<Rightarrow> crc32_t" where
  "last_crc ws = (if ws = [] then INVALID_CRC32_VALUE else cur_grp_crc (lg_header (last ws)))"

text \<open>What holds of a log device between its operations: the groups written are chained;
  at most one write is in flight, it is the last group written and the flush lock is
  held for it; with no write in flight, \<open>m_last_crc\<close> is the checksum of the last group
  written.\<close>

definition flush_inv :: "LogDev \<Rightarrow> bool" where
  "flush_inv st =
     (crc_chained INVALID_CRC32_VALUE (vdev_writes st) \<and>
      length (inflight st) \<le> 1 \<and>
      (inflight st \<noteq> [] \<longrightarrow>
         m_is_flushing st \<and> vdev_writes st \<noteq> [] \<and> inflight st = [last (vdev_writes st)]) \<and>
      (inflight st = [] \<longrightarrow> m_last_crc st = last_crc (vdev_writes st)))"

text \<open>Runs of a formatted device used to evaluate the functions: one append and a timer
  tick that flushes it; then a second append while the write is in flight, and the two
  completions (the first one chains the second flush).\<close>

definition one_flush_run :: "(logdev_op \<times> nat) list" where
  "one_flush_run = [(Append 7 0 (rec_data hello_record) 0, 10), (TimerTick, 1000)]"


text \<open>A device holding two records of a group in flight, and that group.\<close>

definition device_with_two_records :: LogDev where
  "device_with_two_records =
     (start_format 1 512 0)\<lparr>
        m_log_records := create (create (new_tracker 0) 0 hello_record) 1 (hello_record\<lparr>rec_context := 1\<rparr>),
        m_log_idx := 2, m_is_flushing := True, m_block_flush_q := [5]\<rparr>"

definition group_of_two_records :: LogGroup where
  "group_of_two_records =
     (new_log_group 512)\<lparr>lg_header := empty_header\<lparr>n_log_records := 2, cur_grp_crc := 99\<rparr>,
        m_nrecords := 2, m_flush_log_idx_from := 0, m_flush_log_idx_upto := 1,
        m_log_dev_offset := 2048\<rparr>"

section \<open>Writing back a checkpoint (writeBack\_cache.hpp)\<close>

text \<open>The step that \<open>flush_buffers\<close> and the completion callback share:
  \<open>if (req->dependent_cnt.decrement_testz(1)) { req->state = WB_REQ_SENT;
  m_blkstore->write(...); }\<close>\<close>

definition release_req :: "wb_cache \<Rightarrow> nat \<Rightarrow> wb_cache" where
  "release_req st r =
     (let c = dependent_cnt (reqs st r) - 1;
          st1 = st\<lparr>reqs := (reqs st)(r := (reqs st r)\<lparr>dependent_cnt := c\<rparr>)\<rparr>
      in if c = 0
         then st1\<lparr>reqs := (reqs st1)(r := (reqs st1 r)\<lparr>req_state := WB_REQ_SENT\<rparr>),
                  blkstore_writes := blkstore_writes st1 @ [r]\<rparr>
         else st1)"

text \<open>
  \<open>write(bn, dependent_bn, bcp)\<close>, named \<open>wb_write\<close> here, with its two branches and its
  last block as functions of their own: \<open>create_wb_req\<close> is the branch that makes a new
  request for the node, \<open>update_wb_req\<close> the branch that finds one, and \<open>add_dependent\<close>
  the block that queues the request behind the one it depends on.  The debug assertions
  are branches.
\<close>

definition create_wb_req :: "wb_cache \<Rightarrow> nat \<Rightarrow> btree_cp \<Rightarrow> wb_cache" where
  "create_wb_req st bn bcp =
     (let cp_idx = cp_slot bcp; node = nodes st bn; wb_req = n_reqs st in
      st\<lparr>reqs := (reqs st)
             (wb_req := make_request\<lparr>req_bcp := Some bcp, req_mem := Some (bn_memvec node),
                          req_bn := Some bn, req_bid := node_id node, req_state := WB_REQ_WAITING\<rparr>),
         n_reqs := Suc wb_req,
         nodes := (nodes st)
             (bn := node\<lparr>bn_req := (bn_req node)(cp_idx := Some wb_req), bn_bcp := Some bcp\<rparr>),
         m_req_list := (m_req_list st)(cp_idx := m_req_list st cp_idx @ [wb_req]),
         m_dirty_buf_cnt := (m_dirty_buf_cnt st)(cp_idx := m_dirty_buf_cnt st cp_idx + 1)\<rparr>)"

definition update_wb_req :: "wb_cache \<Rightarrow> nat \<Rightarrow> nat \<Rightarrow> wb_cache" where
  "update_wb_req st bn r =
     st\<lparr>reqs := (reqs st)(r := (reqs st r)\<lparr>req_mem := Some (bn_memvec (nodes st bn))\<rparr>)\<rparr>"

definition add_dependent :: "wb_cache \<Rightarrow> nat \<Rightarrow> nat \<Rightarrow> wb_cache" where
  "add_dependent st wbd_req wb_req =
     (let st2 = st\<lparr>reqs := (reqs st)
                     (wbd_req := (reqs st wbd_req)\<lparr>req_q := req_q (reqs st wbd_req) @ [wb_req]\<rparr>)\<rparr>
      in st2\<lparr>reqs := (reqs st2)
                (wb_req := (reqs st2 wb_req)
                   \<lparr>dependent_cnt := dependent_cnt (reqs st2 wb_req) + 1\<rparr>)\<rparr>)"

definition wb_write :: "wb_cache \<Rightarrow> nat \<Rightarrow> nat option \<Rightarrow> btree_cp \<Rightarrow> wb_error + wb_cache" where
  "wb_write st bn dependent_bn bcp =
     (let cp_idx = cp_slot bcp in
      if (case dependent_bn of None \<Rightarrow> False | Some d \<Rightarrow> bn_req (nodes st d) cp_idx = None)
      then Inl WbAssertFailed
      else
        let wbd_req = (case dependent_bn of None \<Rightarrow> None | Some d \<Rightarrow> bn_req (nodes st d) cp_idx)
        in case (case bn_req (nodes st bn) cp_idx of
                   None \<Rightarrow> Inr (create_wb_req st bn bcp)
                 | Some r \<Rightarrow>
                     if req_bid (reqs st r) \<noteq> node_id (nodes st bn) then Inl WbAssertFailed
                     else Inr (update_wb_req st bn r)) of
             Inl e \<Rightarrow> Inl e
           | Inr st1 \<Rightarrow>
               (case bn_req (nodes st1 bn) cp_idx of
                  None \<Rightarrow> Inl WbNullDeref
                | Some wb_req \<Rightarrow>
                    if req_state (reqs st1 wb_req) \<noteq> WB_REQ_WAITING then Inl WbAssertFailed
                    else
                      (case wbd_req of
                         None \<Rightarrow> Inr st1
                       | Some d \<Rightarrow> Inr (add_dependent st1 d wb_req))))"

text \<open>
  \<open>flush_buffers(bcp)\<close> in three parts, since write completions arrive on other threads
  while it runs: the increment of the pseudo-request and the start of the iteration; one
  turn of the loop; and, the list visited, \<open>list->clear()\<close> with the last decrement and
  the call of \<open>m_cp_comp_cb\<close>.
\<close>

definition flush_begin :: "wb_cache \<Rightarrow> btree_cp \<Rightarrow> wb_cache" where
  "flush_begin st bcp =
     (let cp_id = cp_slot bcp in
      st\<lparr>m_dirty_buf_cnt := (m_dirty_buf_cnt st)(cp_id := m_dirty_buf_cnt st cp_id + 1),
         flush_iter := (flush_iter st)(cp_id := Some (bcp, m_req_list st cp_id))\<rparr>)"

definition flush_next :: "wb_cache \<Rightarrow> nat \<Rightarrow> wb_cache" where
  "flush_next st slot =
     (case flush_iter st slot of
        Some (bcp, wb_req # rest) \<Rightarrow>
          (release_req st wb_req)\<lparr>flush_iter := (flush_iter st)(slot := Some (bcp, rest))\<rparr>
      | _ \<Rightarrow> st)"

definition flush_end :: "wb_cache \<Rightarrow> nat \<Rightarrow> wb_cache" where
  "flush_end st slot =
     (case flush_iter st slot of
        None \<Rightarrow> st
      | Some (bcp, rest) \<Rightarrow>
          let st1 = st\<lparr>m_req_list := (m_req_list st)(slot := []),
                       flush_iter := (flush_iter st)(slot := None),
                       m_dirty_buf_cnt := (m_dirty_buf_cnt st)(slot := m_dirty_buf_cnt st slot - 1)\<rparr>
          in if m_dirty_buf_cnt st1 slot = 0
             then st1\<lparr>cp_comp_calls := cp_comp_calls st1 @ [(bcp, m_dirty_buf_cnt st1 slot)]\<rparr>
             else st1)"

text \<open>\<open>flush_buffers(bcp)\<close> run without a completion in between.\<close>

definition flush_buffers :: "wb_cache \<Rightarrow> btree_cp \<Rightarrow> wb_cache" where
  "flush_buffers st bcp =
     flush_end (((\<lambda>s. flush_next s (cp_slot bcp)) ^^ length (m_req_list st (cp_slot bcp)))
                  (flush_begin st bcp))
               (cp_slot bcp)"

text \<open>The loop of the completion callback over \<open>req_q\<close>, from the back: take the last
  request off the queue and release it.  The argument list is the queue when the loop
  starts, reversed; nothing in the loop adds to a queue.\<close>

fun drain_req_q :: "wb_cache \<Rightarrow> nat \<Rightarrow> nat list \<Rightarrow> wb_cache" where
  "drain_req_q st wb_req [] = st"
| "drain_req_q st wb_req (depend_req # ds) =
     drain_req_q
       (release_req
          (st\<lparr>reqs := (reqs st)(wb_req := (reqs st wb_req)\<lparr>req_q := butlast (req_q (reqs st wb_req))\<rparr>)\<rparr>)
          depend_req)
       wb_req ds"

text \<open>The completion callback \<open>writeBack_completion_internal\<close>: \<open>complete_req\<close> is its
  body for a request whose checkpoint and node are set, the function itself adds the two
  pointers the body dereferences.\<close>

definition complete_req :: "wb_cache \<Rightarrow> nat \<Rightarrow> btree_cp \<Rightarrow> nat \<Rightarrow> wb_cache" where
  "complete_req st wb_req bcp bn =
     (let cp_idx = cp_slot bcp;
          st1 = st\<lparr>reqs := (reqs st)(wb_req := (reqs st wb_req)\<lparr>req_state := WB_REQ_COMPL\<rparr>)\<rparr>;
          st2 = drain_req_q st1 wb_req (rev (req_q (reqs st1 wb_req)));
          st3 = st2\<lparr>nodes := (nodes st2)
                          (bn := (nodes st2 bn)\<lparr>bn_req := (bn_req (nodes st2 bn))(cp_idx := None)\<rparr>),
                    m_dirty_buf_cnt := (m_dirty_buf_cnt st2)(cp_idx := m_dirty_buf_cnt st2 cp_idx - 1)\<rparr>
      in if m_dirty_buf_cnt st3 cp_idx = 0
         then st3\<lparr>cp_comp_calls := cp_comp_calls st3 @ [(bcp, m_dirty_buf_cnt st3 cp_idx)]\<rparr>
         else st3)"

definition writeBack_completion_internal :: "wb_cache \<Rightarrow> nat \<Rightarrow> wb_error + wb_cache" where
  "writeBack_completion_internal st wb_req =
     (case req_bcp (reqs st wb_req) of
        None \<Rightarrow> Inl WbNullDeref
      | Some bcp \<Rightarrow>
          (case req_bn (reqs st wb_req) of
             None \<Rightarrow> Inl WbNullDeref
           | Some bn \<Rightarrow> Inr (complete_req st wb_req bcp bn)))"

text \<open>
  \<open>prepare_cp(new_bcp, cur_bcp, blkalloc_checkpoint)\<close>, as far as the requests go: the
  two debug assertions on the slot of the new checkpoint.  The choice of the free block
  list, which is all that \<open>cur_bcp\<close> and \<open>blkalloc_checkpoint\<close> decide, is outside this
  model of the cache.
\<close>

definition prepare_cp :: "wb_cache \<Rightarrow> btree_cp option \<Rightarrow> wb_error + wb_cache" where
  "prepare_cp st new_bcp =
     (case new_bcp of
        None \<Rightarrow> Inr st
      | Some bcp \<Rightarrow>
          let cp_idx = cp_slot bcp in
          if m_dirty_buf_cnt st cp_idx \<noteq> 0 then Inl WbAssertFailed
          else if length (m_req_list st cp_idx) \<noteq> 0 then Inl WbAssertFailed
          else Inr st)"

text \<open>
  What happens to a cache: a \<open>prepare_cp\<close> for a new checkpoint; a \<open>write\<close>; the three
  parts of a \<open>flush_buffers\<close> on a slot; the block store reporting a write as done.  A
  part of \<open>flush_buffers\<close> runs only in its turn, one \<open>flush_buffers\<close> at a time on a
  slot, and the block store completes only a write it was sent and that it has not
  completed yet.
\<close>

datatype wb_event =
    WbPrepareCp btree_cp
  | WbWrite nat "nat option" btree_cp
  | WbFlushBegin btree_cp
  | WbFlushNext nat
  | WbFlushEnd nat
  | WbIoDone nat

datatype wb_stop = WbError wb_error | WbNotEnabled

fun wb_step :: "wb_cache \<Rightarrow> wb_event \<Rightarrow> wb_stop + wb_cache" where
  "wb_step st (WbPrepareCp bcp) =
     (case prepare_cp st (Some bcp) of Inl e \<Rightarrow> Inl (WbError e) | Inr st' \<Rightarrow> Inr st')"
| "wb_step st (WbWrite bn dep bcp) =
     (case wb_write st bn dep bcp of Inl e \<Rightarrow> Inl (WbError e) | Inr st' \<Rightarrow> Inr st')"
| "wb_step st (WbFlushBegin bcp) =
     (if flush_iter st (cp_slot bcp) = None then Inr (flush_begin st bcp) else Inl WbNotEnabled)"
| "wb_step st (WbFlushNext slot) =
     (case flush_iter st slot of
        Some (bcp, r # rest) \<Rightarrow> Inr (flush_next st slot)
      | _ \<Rightarrow> Inl WbNotEnabled)"
| "wb_step st (WbFlushEnd slot) =
     (case flush_iter st slot of
        Some (bcp, []) \<Rightarrow> Inr (flush_end st slot)
      | _ \<Rightarrow> Inl WbNotEnabled)"
| "wb_step st (WbIoDone r) =
     (if req_state (reqs st r) = WB_REQ_SENT
      then (case writeBack_completion_internal st r of Inl e \<Rightarrow> Inl (WbError e) | Inr st' \<Rightarrow> Inr st')
      else Inl WbNotEnabled)"

text \<open>
  The life of one checkpoint \<open>cp\<close>, as the B-tree runs it: nodes are written for it, then
  \<open>cp_start\<close> has \<open>flush_buffers(cp)\<close> run once, and no other checkpoint uses its slot
  meanwhile.  \<open>cp_phase_step\<close> follows an event of the cache and gives \<open>None\<close> when the
  event breaks this order.
\<close>

datatype cp_phase = Filling | Flushing | Flushed

fun cp_phase_step :: "btree_cp \<Rightarrow> cp_phase \<Rightarrow> wb_event \<Rightarrow> cp_phase option" where
  "cp_phase_step cp ph (WbPrepareCp c) = (if cp_slot c = cp_slot cp then None else Some ph)"
| "cp_phase_step cp ph (WbWrite bn dep c) =
     (if cp_slot c = cp_slot cp then (if c = cp \<and> ph = Filling then Some ph else None) else Some ph)"
| "cp_phase_step cp ph (WbFlushBegin c) =
     (if cp_slot c = cp_slot cp then (if c = cp \<and> ph = Filling then Some Flushing else None) else Some ph)"
| "cp_phase_step cp ph (WbFlushNext j) = Some ph"
| "cp_phase_step cp ph (WbFlushEnd j) =
     (if j = cp_slot cp then (if ph = Flushing then Some Flushed else None) else Some ph)"
| "cp_phase_step cp ph (WbIoDone r) = Some ph"

text \<open>
  The checkpoints of a B-tree, as its checkpoint manager runs them on the cache.  A slot
  has at most one checkpoint at work, in one of the three phases; the checkpoints that
  left their slot to a later one are kept in a list.  \<open>prepare_cp(c)\<close> brings in a
  checkpoint \<open>c\<close> that was never used, on a slot that is free or whose checkpoint has had
  its \<open>flush_buffers\<close>; \<open>write\<close> and \<open>cp_start\<close> are for the checkpoint at work on the slot,
  and \<open>cp_start\<close> comes once, after the writes.  \<open>cp_mgr_step\<close> gives \<open>None\<close> for an event
  out of this order.
\<close>

type_synonym cp_mgr = "(nat \<Rightarrow> (btree_cp \<times> cp_phase) option) \<times> btree_cp list"

definition no_cp :: cp_mgr where
  "no_cp = ((\<lambda>_. None), [])"

fun cp_mgr_step :: "cp_mgr \<Rightarrow> wb_event \<Rightarrow> cp_mgr option" where
  "cp_mgr_step (cur, past) (WbPrepareCp c) =
     (if c \<in> set past then None
      else case cur (cp_slot c) of
             None \<Rightarrow> Some (cur(cp_slot c := Some (c, Filling)), past)
           | Some (cp, ph) \<Rightarrow>
               if ph = Flushed \<and> c \<noteq> cp
               then Some (cur(cp_slot c := Some (c, Filling)), cp # past)
               else None)"
| "cp_mgr_step (cur, past) (WbWrite bn dep c) =
     (if cur (cp_slot c) = Some (c, Filling) then Some (cur, past) else None)"
| "cp_mgr_step (cur, past) (WbFlushBegin c) =
     (if cur (cp_slot c) = Some (c, Filling)
      then Some (cur(cp_slot c := Some (c, Flushing)), past) else None)"
| "cp_mgr_step (cur, past) (WbFlushNext j) = Some (cur, past)"
| "cp_mgr_step (cur, past) (WbFlushEnd j) =
     (case cur j of
        Some (cp, ph) \<Rightarrow> if ph = Flushing then Some (cur(j := Some (cp, Flushed)), past) else None
      | None \<Rightarrow> None)"
| "cp_mgr_step (cur, past) (WbIoDone r) = Some (cur, past)"

fun cps_run :: "cp_mgr \<times> wb_cache \<Rightarrow> wb_event list \<Rightarrow> (cp_mgr \<times> wb_cache) option" where
  "cps_run (mgr, st) [] = Some (mgr, st)"
| "cps_run (mgr, st) (e # es) =
     (case (cp_mgr_step mgr e, wb_step st e) of
        (Some mgr', Inr st') \<Rightarrow> cps_run (mgr', st') es
      | _ \<Rightarrow> None)"

text \<open>The number of times the checkpoint-complete callback was called for a checkpoint.\<close>

definition cp_comp_count :: "wb_cache \<Rightarrow> btree_cp \<Rightarrow> nat" where
  "cp_comp_count st cp = length (filter (\<lambda>x. fst x = cp) (cp_comp_calls st))"

text \<open>Every request made for the checkpoint is in state \<open>COMPL\<close>.\<close>

definition cp_all_written :: "wb_cache \<Rightarrow> btree_cp \<Rightarrow> bool" where
  "cp_all_written st cp =
     (\<forall>r < n_reqs st. req_bcp (reqs st r) = Some cp \<longrightarrow> req_state (reqs st r) = WB_REQ_COMPL)"

text \<open>The specification's scenario of dependent writes: nodes 1, 2 and 3 written in
  checkpoint 4, node 2 after node 1 and node 3 after node 2; the flush; the three
  completions.\<close>

definition dependent_writes :: "wb_event list" where
  "dependent_writes =
     [WbPrepareCp \<lparr>cp_id = 4\<rparr>,
      WbWrite 1 None \<lparr>cp_id = 4\<rparr>, WbWrite 2 (Some 1) \<lparr>cp_id = 4\<rparr>, WbWrite 3 (Some 2) \<lparr>cp_id = 4\<rparr>,
      WbFlushBegin \<lparr>cp_id = 4\<rparr>, WbFlushNext 0, WbFlushNext 0, WbFlushNext 0, WbFlushEnd 0,
      WbIoDone 0, WbIoDone 1, WbIoDone 2]"

text \<open>The same, and then checkpoint 6 on the same slot, with no node written.\<close>

definition empty_checkpoint_after :: "wb_event list" where
  "empty_checkpoint_after =
     dependent_writes @ [WbPrepareCp \<lparr>cp_id = 6\<rparr>, WbFlushBegin \<lparr>cp_id = 6\<rparr>, WbFlushEnd 0]"

text \<open>The requests of a checkpoint that are not written yet.\<close>

definition cp_pending :: "wb_cache \<Rightarrow> btree_cp \<Rightarrow> nat set" where
  "cp_pending st cp = {r. req_bcp (reqs st r) = Some cp \<and> req_state (reqs st r) \<noteq> WB_REQ_COMPL}"

text \<open>A request belongs to a slot: its checkpoint is set and has that slot.\<close>

definition req_in_slot :: "wb_cache \<Rightarrow> nat \<Rightarrow> nat \<Rightarrow> bool" where
  "req_in_slot st r j = (\<exists>c. req_bcp (reqs st r) = Some c \<and> cp_slot c = j)"

text \<open>
  The shape every cache built by the operations has: only allocated requests have a
  checkpoint; a request that was sent has used up its \<open>dependent_cnt\<close>; the requests in a
  queue, in a slot's list, under a running iterator and in a node's slot belong to the
  slot of the place that holds them.
\<close>

definition wb_wf :: "wb_cache \<Rightarrow> bool" where
  "wb_wf st =
     ((\<forall>r. n_reqs st \<le> r \<longrightarrow> req_bcp (reqs st r) = None) \<and>
      (\<forall>r. req_state (reqs st r) = WB_REQ_SENT \<or> req_state (reqs st r) = WB_REQ_COMPL \<longrightarrow>
           dependent_cnt (reqs st r) \<le> 0) \<and>
      (\<forall>r d c. d \<in> set (req_q (reqs st r)) \<and> req_bcp (reqs st r) = Some c \<longrightarrow>
           req_in_slot st d (cp_slot c)) \<and>
      (\<forall>j r. r \<in> set (m_req_list st j) \<longrightarrow> req_in_slot st r j) \<and>
      (\<forall>j c rest. flush_iter st j = Some (c, rest) \<longrightarrow>
           cp_slot c = j \<and> (\<forall>r \<in> set rest. req_in_slot st r j)) \<and>
      (\<forall>n j r. bn_req (nodes st n) j = Some r \<longrightarrow> req_in_slot st r j))"

text \<open>
  What holds during the life of checkpoint \<open>cp\<close>: the requests of its slot that are not
  written yet are its own; while nodes are still written for it none of its requests has
  left \<open>WAITING\<close> and the list of the slot holds requests of \<open>cp\<close> only; a \<open>flush_buffers\<close>
  runs on its slot exactly in the phase \<open>Flushing\<close>, and for \<open>cp\<close>; the dirty-buffer
  counter of the slot is the number of its requests not written yet, plus one while
  \<open>flush_buffers\<close> runs; the callback has been called for \<open>cp\<close> once if \<open>flush_buffers\<close> is
  over and all requests are written, and not at all otherwise; and every call of the
  callback was made with a counter of zero.
\<close>

definition cp_inv :: "btree_cp \<Rightarrow> cp_phase \<Rightarrow> wb_cache \<Rightarrow> bool" where
  "cp_inv cp ph st =
     (wb_wf st \<and>
      (\<forall>r c. req_bcp (reqs st r) = Some c \<and> cp_slot c = cp_slot cp \<and>
             req_state (reqs st r) \<noteq> WB_REQ_COMPL \<longrightarrow> c = cp) \<and>
      (ph = Filling \<longrightarrow>
         (\<forall>r. req_bcp (reqs st r) = Some cp \<longrightarrow> req_state (reqs st r) = WB_REQ_WAITING) \<and>
         (\<forall>r \<in> set (m_req_list st (cp_slot cp)). req_bcp (reqs st r) = Some cp)) \<and>
      (case flush_iter st (cp_slot cp) of None \<Rightarrow> ph \<noteq> Flushing | Some (c, rest) \<Rightarrow> ph = Flushing \<and> c = cp) \<and>
      m_dirty_buf_cnt st (cp_slot cp) =
        int (card (cp_pending st cp)) + (if ph = Flushing then 1 else 0) \<and>
      cp_comp_count st cp = (if ph = Flushed \<and> cp_pending st cp = {} then 1 else 0) \<and>
      (\<forall>x \<in> set (cp_comp_calls st). snd x = 0))"

text \<open>A slot no checkpoint has used.\<close>

definition slot_idle :: "wb_cache \<Rightarrow> nat \<Rightarrow> bool" where
  "slot_idle st j =
     ((\<forall>r. \<not> req_in_slot st r j) \<and> m_dirty_buf_cnt st j = 0 \<and> flush_iter st j = None)"

text \<open>A checkpoint the manager knows: at work on its slot, or past.\<close>

definition cp_known :: "cp_mgr \<Rightarrow> btree_cp \<Rightarrow> bool" where
  "cp_known mgr c = (c \<in> set (snd mgr) \<or> (\<exists>ph. fst mgr (cp_slot c) = Some (c, ph)))"

text \<open>
  What holds of the cache and the checkpoints together: a slot without a checkpoint is
  idle and a checkpoint at work is on its own slot, with what holds during its life; the
  requests and the calls of the callback are those of known checkpoints; a past
  checkpoint is not at work, all its requests are written and the callback was called
  for it once.
\<close>

definition cps_inv :: "cp_mgr \<Rightarrow> wb_cache \<Rightarrow> bool" where
  "cps_inv mgr st =
     (wb_wf st \<and>
      (\<forall>j. case fst mgr j of None \<Rightarrow> slot_idle st j
                           | Some (cp, ph) \<Rightarrow> cp_slot cp = j \<and> cp_inv cp ph st) \<and>
      (\<forall>r c. req_bcp (reqs st r) = Some c \<longrightarrow> cp_known mgr c) \<and>
      (\<forall>x \<in> set (cp_comp_calls st). snd x = 0 \<and> cp_known mgr (fst x)) \<and>
      (\<forall>c \<in> set (snd mgr). (\<forall>ph. fst mgr (cp_slot c) \<noteq> Some (c, ph)) \<and>
           cp_pending st c = {} \<and> cp_comp_count st c = 1))"

text \<open>The checkpoint an event works for.\<close>

fun wb_touches :: "wb_cache \<Rightarrow> wb_event \<Rightarrow> btree_cp \<Rightarrow> bool" where
  "wb_touches st (WbPrepareCp c') c = (c' = c)"
| "wb_touches st (WbWrite bn dep c') c = (c' = c)"
| "wb_touches st (WbFlushBegin c') c = (c' = c)"
| "wb_touches st (WbFlushNext j) c = (case flush_iter st j of None \<Rightarrow> False | Some (c', rest) \<Rightarrow> c' = c)"
| "wb_touches st (WbFlushEnd j) c = (case flush_iter st j of None \<Rightarrow> False | Some (c', rest) \<Rightarrow> c' = c)"
| "wb_touches st (WbIoDone r) c =
     (req_bcp (reqs st r) = Some c \<and> req_state (reqs st r) = WB_REQ_SENT)"

chapter \<open>Properties\<close>

section \<open>Properties of the append block allocator\<close>

subsection \<open>The three outcomes of \<open>alloc\<close>\<close>

text \<open>The value \<open>alloc\<close> computes in \<open>avail_blks\<close> is that count.\<close>

lemma unat_avail_after_hint:
  "unat (avail_after_hint a hint) =
     unat (total_blks a - m_last_append_offset a) - hint_reserved hint"
proof (cases "reserved_blks hint")
  case None
  then show ?thesis
    by (simp add: avail_after_hint_def available_blks_def get_used_blks_def hint_reserved_def)
next
  case (Some r)
  let ?av = "total_blks a - m_last_append_offset a"
  show ?thesis
  proof (cases "r < unat ?av")
    case True
    have r: "unat (of_nat r :: 'a word) = r"
      using True by (intro le_unat_uoi [where z = "?av"]) simp
    then have "(of_nat r :: 'a word) \<le> ?av"
      using True by (simp add: word_le_nat_alt)
    then have "unat (?av - of_nat r) = unat ?av - r"
      using r by (simp add: unat_sub)
    with Some True show ?thesis
      by (simp add: avail_after_hint_def available_blks_def get_used_blks_def hint_reserved_def)
  next
    case False
    with Some show ?thesis
      by (simp add: avail_after_hint_def available_blks_def get_used_blks_def hint_reserved_def)
  qed
qed

text \<open>
  Claim C5.  The branches of \<open>alloc\<close>, read in the order the code tests them: when the
  available block count (after the reserved hint) is less than \<open>nblks\<close> the call returns
  \<open>SPACE_FULL\<close>, writes no \<open>BlkId\<close> and leaves the allocator, hence
  \<open>last_append_offset\<close>, unchanged; otherwise, when \<open>nblks\<close> exceeds
  \<open>max_blks_per_blkid\<close>, it returns \<open>FAILED\<close> and again changes nothing; otherwise it
  returns \<open>SUCCESS\<close> with a \<open>BlkId\<close> whose offset is the old \<open>last_append_offset\<close> and
  whose count is \<open>nblks\<close>, and \<open>last_append_offset\<close> has advanced by \<open>nblks\<close>.
\<close>

theorem alloc_cases:
  "(spec_avail_blks a hint < unat nblks \<longrightarrow> alloc a nblks hint = (SPACE_FULL, None, a)) \<and>
   (\<not> spec_avail_blks a hint < unat nblks \<and> max_blks_per_blkid a < unat nblks \<longrightarrow>
      alloc a nblks hint = (FAILED, None, a)) \<and>
   (\<not> spec_avail_blks a hint < unat nblks \<and> \<not> max_blks_per_blkid a < unat nblks \<longrightarrow>
      alloc a nblks hint =
        (SUCCESS,
         Some \<lparr>blk_num = m_last_append_offset a, blk_count = nblks, chunk_num = m_chunk_id a\<rparr>,
         a\<lparr>m_last_append_offset := m_last_append_offset a + ucast nblks\<rparr>))"
  by (simp add: alloc_def unat_avail_after_hint Let_def spec_avail_blks_def)

theorem alloc_cases_witness:
  "alloc (format_allocator (4 :: 32 word) 8 7) (5 :: 16 word) \<lparr>reserved_blks = None\<rparr>
     = (SPACE_FULL, None, format_allocator 4 8 7) \<and>
   alloc (format_allocator (100 :: 32 word) 8 7) (9 :: 16 word) \<lparr>reserved_blks = Some 3\<rparr>
     = (FAILED, None, format_allocator 100 8 7) \<and>
   alloc (format_allocator (100 :: 32 word) 8 7) (5 :: 16 word) \<lparr>reserved_blks = Some 95\<rparr>
     = (SUCCESS, Some \<lparr>blk_num = 0, blk_count = 5, chunk_num = 7\<rparr>,
        (format_allocator 100 8 7)\<lparr>m_last_append_offset := 5\<rparr>)"
  using alloc_cases [of "format_allocator (4 :: 32 word) 8 7" "\<lparr>reserved_blks = None\<rparr>" "5 :: 16 word"]
        alloc_cases [of "format_allocator (100 :: 32 word) 8 7" "\<lparr>reserved_blks = Some 3\<rparr>" "9 :: 16 word"]
        alloc_cases [of "format_allocator (100 :: 32 word) 8 7" "\<lparr>reserved_blks = Some 95\<rparr>" "5 :: 16 word"]
  by (simp add: spec_avail_blks_def hint_reserved_def format_allocator_def)

text \<open>
  Claim C10.  When both failure conditions hold at once (too few blocks available after
  the reserved hint, and \<open>nblks\<close> above \<open>max_blks_per_blkid\<close>), the status is
  \<open>SPACE_FULL\<close>: the capacity test comes first.
\<close>

theorem alloc_space_full_first:
  "spec_avail_blks a hint < unat nblks \<Longrightarrow> max_blks_per_blkid a < unat nblks \<Longrightarrow>
     fst (alloc a nblks hint) = SPACE_FULL"
  by (simp add: alloc_def unat_avail_after_hint Let_def spec_avail_blks_def)

theorem alloc_space_full_first_witness:
  "spec_avail_blks (format_allocator (4 :: 32 word) 8 7) \<lparr>reserved_blks = Some 1\<rparr> < unat (9 :: 16 word) \<and>
   max_blks_per_blkid (format_allocator (4 :: 32 word) 8 7) < unat (9 :: 16 word) \<and>
   fst (alloc (format_allocator (4 :: 32 word) 8 7) (9 :: 16 word) \<lparr>reserved_blks = Some 1\<rparr>) = SPACE_FULL"
proof -
  have h1: "spec_avail_blks (format_allocator (4 :: 32 word) 8 7) \<lparr>reserved_blks = Some 1\<rparr> < unat (9 :: 16 word)"
    by (simp add: spec_avail_blks_def hint_reserved_def format_allocator_def)
  have h2: "max_blks_per_blkid (format_allocator (4 :: 32 word) 8 7) < unat (9 :: 16 word)"
    by (simp add: format_allocator_def)
  from alloc_space_full_first [OF h1 h2] h1 h2 show ?thesis by simp
qed


subsection \<open>The cache offset and the disk offset\<close>

text \<open>
  Claim C4, as stated, fails: \<open>reserve_on_disk\<close> raises \<open>commit_offset\<close> to the end of
  the \<open>BlkId\<close> it is given and never looks at \<open>last_append_offset\<close>.  After one block is
  allocated, a \<open>reserve_on_disk\<close> of five blocks starting at block 0 passes the debug
  assertion (block 0 is allocated) and leaves \<open>commit_offset = 5\<close> above
  \<open>last_append_offset = 1\<close>.
\<close>

theorem reserve_on_disk_overtakes_cache:
  "run_alloc_ops (format_allocator (100 :: 32 word) 8 7)
     [Alloc (1 :: 16 word) \<lparr>reserved_blks = None\<rparr>,
      ReserveOnDisk \<lparr>blk_num = 0, blk_count = 5, chunk_num = 7\<rparr>]
   = Inr \<lparr>total_blks = 100, max_blks_per_blkid = 8, m_chunk_id = 7,
          m_last_append_offset = 1, m_commit_offset = 5, m_freeable_nblks = 0,
          m_is_dirty = True,
          m_sb = \<lparr>sb_commit_offset = 0, sb_freeable_nblks = 0\<rparr>, sb_writes = []\<rparr>
   \<and> \<not> ((5 :: 32 word) \<le> 1)"
  by (simp add: format_allocator_def alloc_def avail_after_hint_def available_blks_def
      get_used_blks_def reserve_on_disk_def is_blk_alloced_def Let_def word_le_nat_alt)

text \<open>A second way out of the order: a \<open>reserve_on_cache\<close> beyond the chunk makes
  \<open>available_blks\<close> wrap, and a later \<open>alloc\<close> wraps \<open>last_append_offset\<close> below the
  disk offset.\<close>

lemma alloc_wraps_past_total:
  "run_alloc_ops (format_allocator (10 :: 32 word) 8 7)
     [ReserveOnCache \<lparr>blk_num = 4294967293, blk_count = (1 :: 16 word), chunk_num = 7\<rparr>,
      ReserveOnDisk \<lparr>blk_num = 4294967293, blk_count = 1, chunk_num = 7\<rparr>,
      Alloc 5 \<lparr>reserved_blks = None\<rparr>]
   = Inr \<lparr>total_blks = 10, max_blks_per_blkid = 8, m_chunk_id = 7,
          m_last_append_offset = 3, m_commit_offset = 4294967294, m_freeable_nblks = 0,
          m_is_dirty = True,
          m_sb = \<lparr>sb_commit_offset = 0, sb_freeable_nblks = 0\<rparr>, sb_writes = []\<rparr>"
  by (simp add: format_allocator_def alloc_def avail_after_hint_def available_blks_def
      get_used_blks_def reserve_on_disk_def reserve_on_cache_def is_blk_alloced_def Let_def)

lemma unat_add_ucast_le:
  fixes x :: "'n::len word" and c :: "'c::len word"
  assumes "unat x + unat c \<le> unat (t :: 'n word)"
  shows "unat (x + ucast c) = unat x + unat c"
proof -
  have c: "unat (ucast c :: 'n word) = unat c"
  proof -
    have "unat c \<le> unat t" using assms by simp
    also have "unat t < 2 ^ LENGTH('n)" by (rule unsigned_less)
    finally show ?thesis by (simp add: unsigned_ucast_eq take_bit_nat_eq_self)
  qed
  have "unat x + unat c < 2 ^ LENGTH('n)"
    using assms by (meson le_less_trans unsigned_less)
  then show ?thesis
    using c by (simp add: unat_word_ariths)
qed

lemma alloc_fail_unchanged:
  "fst (alloc a nblks hint) \<noteq> SUCCESS \<Longrightarrow> snd (snd (alloc a nblks hint)) = a"
  by (simp add: alloc_def Let_def split: if_splits)

lemma alloc_success_state:
  "fst (alloc a nblks hint) = SUCCESS \<Longrightarrow>
     unat nblks \<le> unat (avail_after_hint a hint) \<and>
     snd (snd (alloc a nblks hint)) = a\<lparr>m_last_append_offset := m_last_append_offset a + ucast nblks\<rparr>"
  by (simp add: alloc_def Let_def split: if_splits)

lemma alloc_preserves_inv:
  assumes "alloc_inv a"
  shows "alloc_inv (snd (snd (alloc a nblks hint)))"
proof (cases "fst (alloc a nblks hint) = SUCCESS")
  case False
  then show ?thesis using assms by (simp add: alloc_fail_unchanged)
next
  case True
  note st = alloc_success_state [OF True]
  have "unat (avail_after_hint a hint) \<le> unat (total_blks a - m_last_append_offset a)"
    by (simp add: unat_avail_after_hint)
  moreover have "unat (total_blks a - m_last_append_offset a) = unat (total_blks a) - unat (m_last_append_offset a)"
    using assms by (simp add: alloc_inv_def unat_sub)
  moreover have "unat (m_last_append_offset a) \<le> unat (total_blks a)"
    using assms by (simp add: alloc_inv_def word_le_nat_alt)
  ultimately have le: "unat (m_last_append_offset a) + unat nblks \<le> unat (total_blks a)"
    using st by linarith
  have eq: "unat (m_last_append_offset a + ucast nblks) = unat (m_last_append_offset a) + unat nblks"
    by (rule unat_add_ucast_le [OF le])
  have "unat (m_commit_offset a) \<le> unat (m_last_append_offset a)"
    using assms by (simp add: alloc_inv_def word_le_nat_alt)
  then show ?thesis
    using st le eq by (simp add: alloc_inv_def word_le_nat_alt)
qed

lemma reserve_on_disk_preserves_inv:
  assumes "alloc_inv a" and "op_in_range a (ReserveOnDisk bid)" and "reserve_on_disk a bid = Inr a'"
  shows "alloc_inv a'"
proof -
  have "unat (blk_num bid + ucast (blk_count bid)) = unat (blk_num bid) + unat (blk_count bid)"
    using assms(2) by (intro unat_add_ucast_le [where t = "m_last_append_offset a"]) simp
  with assms show ?thesis
    by (simp add: reserve_on_disk_def Let_def alloc_inv_def word_le_nat_alt split: if_splits)
       (auto simp: word_le_nat_alt)
qed

lemma reserve_on_cache_preserves_inv:
  assumes "alloc_inv a" and "op_in_range a (ReserveOnCache bid)"
  shows "alloc_inv (reserve_on_cache a bid)"
proof -
  have "unat (blk_num bid + ucast (blk_count bid)) = unat (blk_num bid) + unat (blk_count bid)"
    using assms(2) by (intro unat_add_ucast_le [where t = "total_blks a"]) simp
  with assms show ?thesis
    by (simp add: reserve_on_cache_def Let_def alloc_inv_def word_le_nat_alt)
qed

lemma apply_alloc_op_preserves_inv:
  assumes "alloc_inv a" and "op_in_range a x" and "apply_alloc_op a x = Inr a'"
  shows "alloc_inv a'"
proof (cases x)
  case (Alloc n h)
  with assms alloc_preserves_inv [of a n h] show ?thesis by auto
next
  case (ReserveOnDisk bid)
  with assms reserve_on_disk_preserves_inv show ?thesis by auto
next
  case (ReserveOnCache bid)
  with assms reserve_on_cache_preserves_inv [of a bid] show ?thesis by auto
next
  case (Free bid)
  with assms show ?thesis by (auto simp: free_blk_def alloc_inv_def)
next
  case CpFlush
  with assms show ?thesis by (auto simp: cp_flush_def alloc_inv_def Let_def)
qed

lemma run_alloc_ops_preserves_inv:
  "alloc_inv a \<Longrightarrow> ops_in_range a ops \<Longrightarrow> run_alloc_ops a ops = Inr a' \<Longrightarrow> alloc_inv a'"
proof (induction ops arbitrary: a)
  case Nil
  then show ?case by simp
next
  case (Cons x xs)
  then show ?case
    by (auto split: sum.splits dest: apply_alloc_op_preserves_inv)
qed

text \<open>
  Claim C4, as amended.  Starting from a formatted allocator, or from one recovered from a
  superblock whose \<open>commit_offset\<close> is at most \<open>total_blks\<close>, after any run of
  \<open>alloc\<close>, \<open>reserve_on_disk\<close>, \<open>reserve_on_cache\<close>, \<open>free\<close> and \<open>cp_flush\<close> calls
  in which every \<open>reserve_on_disk\<close> names a \<open>BlkId\<close> ending at or below the
  \<open>last_append_offset\<close> of that moment and every \<open>reserve_on_cache\<close> names one ending at
  or below \<open>total_blks\<close>, \<open>last_append_offset\<close> is greater than or equal to
  \<open>commit_offset\<close>.
\<close>

theorem offsets_ordered_in_range:
  assumes "a0 = format_allocator tot maxb chunk \<or>
           (a0 = on_meta_blk_found a sb \<and> sb_commit_offset sb \<le> total_blks a)"
      and "ops_in_range a0 ops"
      and "run_alloc_ops a0 ops = Inr a'"
  shows "m_commit_offset a' \<le> m_last_append_offset a'"
proof -
  have "alloc_inv a0"
    using assms(1) by (auto simp: alloc_inv_def format_allocator_def on_meta_blk_found_def)
  from run_alloc_ops_preserves_inv [OF this assms(2,3)] show ?thesis
    by (simp add: alloc_inv_def)
qed


theorem offsets_ordered_in_range_witness:
  "run_alloc_ops (format_allocator (100 :: 32 word) 8 7)
     [Alloc (5 :: 16 word) \<lparr>reserved_blks = None\<rparr>,
      ReserveOnDisk \<lparr>blk_num = 0, blk_count = 5, chunk_num = 7\<rparr>,
      Free \<lparr>blk_num = 0, blk_count = 2, chunk_num = 7\<rparr>,
      CpFlush,
      ReserveOnCache \<lparr>blk_num = 5, blk_count = 3, chunk_num = 7\<rparr>]
   = Inr \<lparr>total_blks = 100, max_blks_per_blkid = 8, m_chunk_id = 7,
          m_last_append_offset = 8, m_commit_offset = 5, m_freeable_nblks = 2,
          m_is_dirty = False,
          m_sb = \<lparr>sb_commit_offset = 5, sb_freeable_nblks = 2\<rparr>,
          sb_writes = [\<lparr>sb_commit_offset = 5, sb_freeable_nblks = 2\<rparr>]\<rparr>
   \<and> (5 :: 32 word) \<le> 8"
proof -
  let ?a0 = "format_allocator (100 :: 32 word) 8 7"
  let ?ops = "[Alloc (5 :: 16 word) \<lparr>reserved_blks = None\<rparr>,
      ReserveOnDisk \<lparr>blk_num = 0, blk_count = 5, chunk_num = 7\<rparr>,
      Free \<lparr>blk_num = 0, blk_count = 2, chunk_num = 7\<rparr>,
      CpFlush,
      ReserveOnCache \<lparr>blk_num = 5, blk_count = 3, chunk_num = 7\<rparr>]"
  let ?a' = "\<lparr>total_blks = 100 :: 32 word, max_blks_per_blkid = 8, m_chunk_id = 7,
          m_last_append_offset = 8, m_commit_offset = 5, m_freeable_nblks = 2,
          m_is_dirty = False,
          m_sb = \<lparr>sb_commit_offset = 5, sb_freeable_nblks = 2\<rparr>,
          sb_writes = [\<lparr>sb_commit_offset = 5, sb_freeable_nblks = 2\<rparr>]\<rparr>"
  have h1: "?a0 = format_allocator 100 8 7 \<or>
            (?a0 = on_meta_blk_found ?a0 \<lparr>sb_commit_offset = 0, sb_freeable_nblks = 0\<rparr> \<and>
             sb_commit_offset \<lparr>sb_commit_offset = 0 :: 32 word, sb_freeable_nblks = 0\<rparr> \<le> total_blks ?a0)"
    by simp
  have h2: "ops_in_range ?a0 ?ops"
    by (simp add: format_allocator_def alloc_def avail_after_hint_def available_blks_def
        get_used_blks_def reserve_on_disk_def reserve_on_cache_def is_blk_alloced_def
        free_blk_def cp_flush_def Let_def)
  have h3: "run_alloc_ops ?a0 ?ops = Inr ?a'"
    by (simp add: format_allocator_def alloc_def avail_after_hint_def available_blks_def
        get_used_blks_def reserve_on_disk_def reserve_on_cache_def is_blk_alloced_def
        free_blk_def cp_flush_def Let_def)
  from offsets_ordered_in_range [OF h1 h2 h3] h3 show ?thesis by simp
qed

section \<open>Properties of the write-back cache\<close>

subsection \<open>\<open>refresh_buf\<close> before a write\<close>

text \<open>
  Claim C8.  For \<open>refresh_buf(node, is_write_modifiable = true, cp)\<close> with both the
  checkpoint and the node's last-writer checkpoint set: equal checkpoint ids give
  \<open>success\<close> and change nothing; a greater id on the node gives \<open>cp_mismatch\<close> and changes
  nothing; a smaller id on the node gives \<open>success\<close>, and then the node's buffer is left
  untouched when the previous-slot request is absent or \<open>COMPL\<close>, and is replaced by a
  deep copy in a fresh memory vector when that request exists and is not \<open>COMPL\<close>: the
  node points to a newly allocated vector with the same bytes, the old vector and every
  request (so the in-flight write's \<open>m_mem\<close>) are as before.
\<close>

theorem refresh_buf_write_modifiable:
  assumes "bn_bcp (nodes st bn) = Some ncp"
  shows
    "(cp_id ncp = cp_id cp \<longrightarrow> refresh_buf st bn True (Some cp) = (success, st)) \<and>
     (cp_id ncp > cp_id cp \<longrightarrow> refresh_buf st bn True (Some cp) = (cp_mismatch, st)) \<and>
     (cp_id ncp < cp_id cp \<and> \<not> prev_slot_pending st bn cp \<longrightarrow>
        refresh_buf st bn True (Some cp) = (success, st)) \<and>
     (cp_id ncp < cp_id cp \<and> prev_slot_pending st bn cp \<and>
      length (memvecs st (bn_memvec (nodes st bn))) = cache_size (nodes st bn) \<and>
      bn_memvec (nodes st bn) < n_memvecs st \<longrightarrow>
        (let st' = snd (refresh_buf st bn True (Some cp));
             old = bn_memvec (nodes st bn); new = bn_memvec (nodes st' bn)
         in fst (refresh_buf st bn True (Some cp)) = success \<and>
            new = n_memvecs st \<and> new \<noteq> old \<and>
            memvecs st' new = memvecs st old \<and>
            memvecs st' old = memvecs st old \<and>
            reqs st' = reqs st \<and>
            nodes st' = (nodes st)(bn := (nodes st bn)\<lparr>bn_memvec := new\<rparr>)))"
  using assms
  by (auto simp: refresh_buf_def prev_slot_pending_def MAX_CP_CNT_def Let_def memcpy_def
      split: option.splits)

theorem refresh_buf_write_modifiable_witness:
  "refresh_buf cache_with_pending_node 3 True (Some \<lparr>cp_id = 4\<rparr>) = (success, cache_with_pending_node) \<and>
   refresh_buf cache_with_pending_node 3 True (Some \<lparr>cp_id = 3\<rparr>) = (cp_mismatch, cache_with_pending_node) \<and>
   refresh_buf cache_with_pending_node 3 True (Some \<lparr>cp_id = 6\<rparr>) = (success, cache_with_pending_node) \<and>
   fst (refresh_buf cache_with_pending_node 3 True (Some \<lparr>cp_id = 5\<rparr>)) = success \<and>
   bn_memvec (nodes (snd (refresh_buf cache_with_pending_node 3 True (Some \<lparr>cp_id = 5\<rparr>))) 3) = 1 \<and>
   memvecs (snd (refresh_buf cache_with_pending_node 3 True (Some \<lparr>cp_id = 5\<rparr>))) 1 = [1, 2] \<and>
   memvecs (snd (refresh_buf cache_with_pending_node 3 True (Some \<lparr>cp_id = 5\<rparr>))) 0 = [1, 2]"
proof -
  have n: "bn_bcp (nodes cache_with_pending_node 3) = Some \<lparr>cp_id = 4\<rparr>"
    by (simp add: cache_with_pending_node_def)
  have p5: "prev_slot_pending cache_with_pending_node 3 \<lparr>cp_id = 5\<rparr>"
    by (simp add: cache_with_pending_node_def prev_slot_pending_def)
  have p6: "\<not> prev_slot_pending cache_with_pending_node 3 \<lparr>cp_id = 6\<rparr>"
    by (simp add: cache_with_pending_node_def prev_slot_pending_def)
  have wf: "length (memvecs cache_with_pending_node (bn_memvec (nodes cache_with_pending_node 3)))
              = cache_size (nodes cache_with_pending_node 3) \<and>
            bn_memvec (nodes cache_with_pending_node 3) < n_memvecs cache_with_pending_node"
    by (simp add: cache_with_pending_node_def)
  have m: "n_memvecs cache_with_pending_node = 1"
          "bn_memvec (nodes cache_with_pending_node 3) = 0"
          "memvecs cache_with_pending_node 0 = [1, 2]"
    by (simp_all add: cache_with_pending_node_def)
  show ?thesis
    using refresh_buf_write_modifiable [OF n, of "\<lparr>cp_id = 4\<rparr>"]
          refresh_buf_write_modifiable [OF n, of "\<lparr>cp_id = 3\<rparr>"]
          refresh_buf_write_modifiable [OF n, of "\<lparr>cp_id = 6\<rparr>"]
          refresh_buf_write_modifiable [OF n, of "\<lparr>cp_id = 5\<rparr>"]
          p5 p6 wf m
    by (auto simp: Let_def)
qed

section \<open>Properties of the log group layout\<close>

subsection \<open>Locating a record's payload\<close>

text \<open>\<open>LogDev::read\<close> does what claim C2 says: when its assertions pass and the slot
  \<open>idx - start_log_idx\<close> is one of the group's slots, it consults that slot and returns
  the \<open>size\<close> bytes that lie at \<open>offset + (is_inlined ? 0 : oob_data_offset)\<close> from the
  start of the group.\<close>

lemma take_drop_pread:
  assumes "d \<le> off" and "off + sz \<le> d + n"
  shows "take sz (drop (off - d) (pread img n d)) = take sz (drop off img)"
proof -
  have "drop (off - d) (take n (drop d img)) = take (n - (off - d)) (drop off img)"
    using assms by (simp add: drop_take)
  moreover have "sz \<le> n - (off - d)" using assms by arith
  ultimately show ?thesis by (simp add: pread_def min_def)
qed

lemma round_down_le: "round_down x m \<le> x"
  by (simp add: round_down_def)

lemma round_up_ge: "0 < m \<Longrightarrow> x \<le> round_up x m"
proof -
  assume m: "0 < m"
  have "x + m - 1 = ((x + m - 1) div m) * m + (x + m - 1) mod m" by simp
  moreover have "(x + m - 1) mod m \<le> m - 1" using m by (simp add: Suc_leI less_Suc_eq_le[symmetric])
  ultimately have "x + m - 1 \<le> ((x + m - 1) div m) * m + (m - 1)" by linarith
  then show ?thesis using m by (simp add: round_up_def)
qed

lemma read_located:
  assumes ok: "read crc g idx = Inr (n, bytes)"
  shows "n = word_of_int (idx - start_log_idx (hdr g)) \<and>
         (\<exists>rec. nth_record g n = Some rec \<and>
            bytes = take (unat (rec_size rec))
                      (drop (unat (rec_offset rec + (if is_inlined rec then 0 else oob_data_offset (hdr g))))
                         (group_bytes g)))"
proof -
  from ok obtain rec where n: "n = word_of_int (idx - start_log_idx (hdr g))"
    and rec: "nth_record g n = Some rec"
    by (auto simp: read_def Let_def split: if_splits option.splits)
  let ?off = "unat (rec_offset rec + (if is_inlined rec then 0 else oob_data_offset (hdr g)))"
  let ?sz = "unat (rec_size rec)"
  have "bytes = take ?sz (drop ?off (group_bytes g))"
  proof (cases "?off + ?sz < initial_read_size")
    case True
    then have "bytes = take ?sz (drop (?off - 0) (pread (group_bytes g) initial_read_size 0))"
      using ok n rec by (auto simp: read_def Let_def split: if_splits option.splits)
    also have "\<dots> = take ?sz (drop ?off (group_bytes g))"
      using True by (intro take_drop_pread) simp_all
    finally show ?thesis .
  next
    case False
    let ?rd = "round_down ?off dma_address_boundary"
    let ?rs = "round_up (?sz + ?off - ?rd) dma_address_boundary"
    from False have "bytes = take ?sz (drop (?off - ?rd) (pread (group_bytes g) ?rs ?rd))"
      using ok n rec by (auto simp: read_def Let_def split: if_splits option.splits)
    also have "\<dots> = take ?sz (drop ?off (group_bytes g))"
    proof (intro take_drop_pread)
      show "?rd \<le> ?off" by (rule round_down_le)
      have "?sz + ?off - ?rd \<le> ?rs"
        by (intro round_up_ge) (simp add: dma_address_boundary_def)
      then show "?off + ?sz \<le> ?rd + ?rs"
        using round_down_le [of ?off dma_address_boundary] by linarith
    qed
    finally show ?thesis .
  qed
  with n rec show ?thesis by blast
qed

lemma read_second_record:
  "read (\<lambda>_. 7) two_record_group 11 = Inr (1, [4, 5])"
  by (simp add: read_def two_record_group_def Let_def nth_record_def pread_def
      initial_read_size_def LOG_GROUP_HDR_MAGIC_def sizeof_log_group_header_def)

text \<open>
  Claim C2 for \<open>log_group_header::data(idx)\<close>, at the second record of a group that
  starts at log index 10: both assertions pass, and the slot asked for is number
  \<open>uint32_t(10 - 11) = 4294967295\<close>, far outside the two slots of the group, where the
  claim has slot 1.
\<close>

theorem data_reversed_slot_index:
  "data two_record_group 11 = Inl (OutsideRecordArea 4294967295)"
proof -
  have u: "unat (- 1 :: 32 word) = 4294967295"
    by (simp add: unsigned_minus_1_eq_mask mask_eq_exp_minus_1)
  have none: "nth_record two_record_group (- 1) = None"
    using u by (simp add: nth_record_def two_record_group_def)
  have m: "(- 1 :: 32 word) = 4294967295"
    by simp
  have hd: "start_log_idx (hdr two_record_group) = 10" "n_log_records (hdr two_record_group) = 2"
    by (simp_all add: two_record_group_def)
  have "data two_record_group 11 = Inl (OutsideRecordArea (- 1))"
    using none by (simp add: data_def hd Let_def)
  then show ?thesis
    by (simp only: m)
qed

text \<open>At the first record the slot is the right one, and the blob of an inlined record starts
  at \<open>inline_data_offset\<close> whatever the record's \<open>offset\<close> is.\<close>

lemma data_inlined_ignores_offset:
  "data (two_record_group\<lparr>record_area :=
           [\<lparr>rec_size = 3, rec_offset = off, is_inlined = True, store_seq_num = 0, rec_store_id = 1\<rparr>]\<rparr>) 10
     = Inr (0, \<lparr>blob_offset = 88, blob_size = 3\<rparr>)"
  by (simp add: data_def two_record_group_def Let_def nth_record_def get_inlined_def)

section \<open>Properties of the log group\<close>

subsection \<open>A full group takes no record\<close>

lemma add_record_nrecords:
  "m_nrecords (snd (add_record cfg lg r idx)) =
     (if fst (add_record cfg lg r idx) then m_nrecords lg + 1 else m_nrecords lg)"
  by (simp add: add_record_def Let_def create_overflow_buf_def)

lemma add_record_max_records:
  "m_max_records (snd (add_record cfg lg r idx)) = m_max_records lg"
  by (simp add: add_record_def Let_def create_overflow_buf_def)

lemma add_record_accepts_below_max:
  "fst (add_record cfg lg r idx) \<Longrightarrow> m_nrecords lg \<noteq> m_max_records lg"
  by (simp add: add_record_def Let_def split: if_splits)

lemma add_record_keeps_bound:
  assumes "m_nrecords lg \<le> m_max_records lg"
  shows "m_nrecords (snd (add_record cfg lg r idx)) \<le> m_max_records (snd (add_record cfg lg r idx))"
proof (cases "fst (add_record cfg lg r idx)")
  case True
  with add_record_accepts_below_max [OF True] assms show ?thesis
    by (simp add: add_record_nrecords add_record_max_records)
next
  case False
  with assms show ?thesis
    by (simp add: add_record_nrecords add_record_max_records)
qed

lemma fill_group_keeps_bound:
  "m_nrecords lg \<le> m_max_records lg \<Longrightarrow>
     m_nrecords (fill_group cfg lg rs) \<le> m_max_records (fill_group cfg lg rs)"
proof (induction rs arbitrary: lg)
  case Nil
  then show ?case by simp
next
  case (Cons x rs)
  obtain idx r where x: "x = (idx, r)" by (cases x)
  obtain b lg' where a: "add_record cfg lg r idx = (b, lg')" by (cases "add_record cfg lg r idx")
  from add_record_keeps_bound [OF Cons.prems, of cfg r idx] a
  have "m_nrecords lg' \<le> m_max_records lg'" by simp
  with Cons.IH [of lg'] a x show ?case by (cases b) simp_all
qed

text \<open>
  Claim C3.  A group that holds \<open>max_records\<close> records rejects \<open>add_record\<close> and is left as
  it was.  For every group built by \<open>reset\<close> and \<open>add_record\<close> calls, a record is accepted
  only while \<open>n_records < max_records\<close>.
\<close>

theorem add_record_full_group:
  assumes "lg = fill_group cfg (reset lg0 max_records) rs"
  shows "(m_nrecords lg = m_max_records lg \<longrightarrow> add_record cfg lg r log_idx = (False, lg)) \<and>
         (fst (add_record cfg lg r log_idx) \<longrightarrow> m_nrecords lg < m_max_records lg)"
proof -
  have "m_nrecords (reset lg0 max_records) \<le> m_max_records (reset lg0 max_records)"
    by (simp add: reset_def)
  then have "m_nrecords lg \<le> m_max_records lg"
    unfolding assms by (rule fill_group_keeps_bound)
  moreover have "fst (add_record cfg lg r log_idx) \<longrightarrow> m_nrecords lg \<noteq> m_max_records lg"
    using add_record_accepts_below_max by blast
  moreover have "m_nrecords lg = m_max_records lg \<longrightarrow> add_record cfg lg r log_idx = (False, lg)"
    by (simp add: add_record_def Let_def)
  ultimately show ?thesis by auto
qed

theorem add_record_full_group_witness:
  "add_record test_config (fill_group test_config (reset (new_log_group 512) 1) [(0, hello_record)])
     hello_record 1
     = (False, fill_group test_config (reset (new_log_group 512) 1) [(0, hello_record)]) \<and>
   fst (add_record test_config (reset (new_log_group 512) 2) hello_record 0) \<and>
   m_nrecords (reset (new_log_group 512) 2) < m_max_records (reset (new_log_group 512) 2)"
proof -
  let ?full = "fill_group test_config (reset (new_log_group 512) 1) [(0, hello_record)]"
  let ?fresh = "reset (new_log_group 512) 2"
  have full: "m_nrecords ?full = m_max_records ?full"
    by (simp add: add_record_def reset_def new_log_group_def Let_def is_inlineable_def
        is_size_inlineable_def test_config_def hello_record_def inline_log_buf_size_def
        sizeof_log_group_header_def sizeof_serialized_log_record_def)
  have acc: "fst (add_record test_config ?fresh hello_record 0)"
    by (simp add: add_record_def reset_def new_log_group_def Let_def is_inlineable_def
        is_size_inlineable_def test_config_def hello_record_def inline_log_buf_size_def
        sizeof_log_group_header_def sizeof_serialized_log_record_def)
  have fresh: "?fresh = fill_group test_config (reset (new_log_group 512) 2) []"
    by simp
  from add_record_full_group [OF refl, of test_config "new_log_group 512" 1 "[(0, hello_record)]" hello_record 1]
       add_record_full_group [OF fresh, of hello_record 0] full acc
  show ?thesis by simp
qed

text \<open>\<open>can_accomodate\<close> answers yes for a full group.\<close>

lemma can_accomodate_full_group:
  "m_nrecords lg = m_max_records lg \<Longrightarrow> can_accomodate lg r"
  by (simp add: can_accomodate_def)

section \<open>Properties of the log device\<close>

subsection \<open>One flush at a time, and the checksum chain\<close>

lemma crc_chained_append:
  "crc_chained p (ws @ [g]) =
     (crc_chained p ws \<and> prev_grp_crc (lg_header g) = (if ws = [] then p else cur_grp_crc (lg_header (last ws))))"
  by (induction ws arbitrary: p) auto



lemma finish_prev_crc:
  "prev_grp_crc (lg_header (finish crc lg ldev prev)) = prev"
  by (simp add: finish_def Let_def)

lemma prepare_flush_result:
  assumes "prepare_flush cfg crc st n = Inr (lg, st')"
  shows "prev_grp_crc (lg_header lg) = m_last_crc st \<and>
         st' = st\<lparr>vdev_tail := vdev_tail st + unat (group_size (lg_header lg))\<rparr>"
  using assms
  by (auto simp: prepare_flush_def Let_def finish_prev_crc split: if_splits prod.splits)

lemma flush_if_needed_idle:
  assumes "\<not> (flush_due cfg st (m_pending_flush_size st + uint sz) now \<and> \<not> m_is_flushing st)"
  shows "flush_if_needed cfg crc st sz idx now =
           Inr (st\<lparr>m_pending_flush_size := m_pending_flush_size st + uint sz\<rparr>)"
  using assms by (auto simp: flush_if_needed_def Let_def flush_due_def)

lemma flush_if_needed_flushes:
  assumes "flush_due cfg st (m_pending_flush_size st + uint sz) now" and "\<not> m_is_flushing st"
      and "flush_if_needed cfg crc st sz idx now = Inr st'"
  shows "\<exists>lg tail. prev_grp_crc (lg_header lg) = m_last_crc st \<and>
           st' = st\<lparr>m_pending_flush_size :=
                       m_pending_flush_size st + uint sz - int (m_actual_data_size lg),
                     m_is_flushing := True, m_last_flush_time := now, vdev_tail := tail,
                     vdev_writes := vdev_writes st @ [lg], inflight := inflight st @ [lg]\<rparr>"
proof -
  let ?st2 = "st\<lparr>m_pending_flush_size := m_pending_flush_size st + uint sz, m_is_flushing := True\<rparr>"
  let ?n = "word_of_int ((if idx = - 1 then m_log_idx st else idx) - m_last_flush_idx st + 4) :: 32 word"
  have due: "flush_due cfg (st\<lparr>m_pending_flush_size := m_pending_flush_size st + uint sz\<rparr>)
               (m_pending_flush_size st + uint sz) now"
    using assms(1) by (simp add: flush_due_def)
  from assms(2,3) due obtain lg st3 where p: "prepare_flush cfg crc ?st2 ?n = Inr (lg, st3)"
    and st': "st' = do_flush (st3\<lparr>m_pending_flush_size := m_pending_flush_size st3 - int (m_actual_data_size lg),
                                   m_last_flush_time := now\<rparr>) lg"
    by (auto simp: flush_if_needed_def Let_def cong: if_cong split: sum.splits prod.splits)
  from prepare_flush_result [OF p]
  have "prev_grp_crc (lg_header lg) = m_last_crc st"
    and "st3 = ?st2\<lparr>vdev_tail := vdev_tail st + unat (group_size (lg_header lg))\<rparr>"
    by simp_all
  with st' have "prev_grp_crc (lg_header lg) = m_last_crc st \<and>
           st' = st\<lparr>m_pending_flush_size :=
                       m_pending_flush_size st + uint sz - int (m_actual_data_size lg),
                     m_is_flushing := True, m_last_flush_time := now,
                     vdev_tail := vdev_tail st + unat (group_size (lg_header lg)),
                     vdev_writes := vdev_writes st @ [lg], inflight := inflight st @ [lg]\<rparr>"
    by (simp add: do_flush_def)
  then show ?thesis by blast
qed

lemma flush_if_needed_inv:
  assumes "flush_inv st" and "flush_if_needed cfg crc st sz idx now = Inr st'"
  shows "flush_inv st'"
proof (cases "flush_due cfg st (m_pending_flush_size st + uint sz) now \<and> \<not> m_is_flushing st")
  case False
  from flush_if_needed_idle [OF False, of crc idx] assms show ?thesis
    by (auto simp: flush_inv_def)
next
  case True
  then have idle: "inflight st = []" using assms(1) by (auto simp: flush_inv_def)
  from True assms(2) flush_if_needed_flushes [of cfg st sz now crc idx st']
  obtain lg tail where prev: "prev_grp_crc (lg_header lg) = m_last_crc st"
    and st': "st' = st\<lparr>m_pending_flush_size :=
                       m_pending_flush_size st + uint sz - int (m_actual_data_size lg),
                     m_is_flushing := True, m_last_flush_time := now, vdev_tail := tail,
                     vdev_writes := vdev_writes st @ [lg], inflight := inflight st @ [lg]\<rparr>"
    by blast
  from assms(1) idle have crc: "m_last_crc st = last_crc (vdev_writes st)"
    and ch: "crc_chained INVALID_CRC32_VALUE (vdev_writes st)"
    by (auto simp: flush_inv_def)
  show ?thesis
    using prev crc ch idle
    by (simp add: st' flush_inv_def crc_chained_append last_crc_def)
qed

lemma append_completions_fields:
  "append_completions st lg k idxs = Inr st2 \<Longrightarrow>
     vdev_writes st2 = vdev_writes st \<and> inflight st2 = inflight st \<and>
     m_is_flushing st2 = m_is_flushing st \<and> m_last_crc st2 = m_last_crc st \<and>
     m_block_flush_q st2 = m_block_flush_q st"
proof (induction idxs arbitrary: st)
  case Nil
  then show ?case by simp
next
  case (Cons i idxs)
  then show ?case by (auto split: option.splits)
qed

lemma flush_completed_fields:
  assumes "flush_completed st lg = Inr st3"
  shows "vdev_writes st3 = vdev_writes st \<and> inflight st3 = inflight st \<and>
         m_is_flushing st3 = m_is_flushing st \<and> m_last_crc st3 = cur_grp_crc (lg_header lg)"
proof -
  from assms obtain st2 where
    a: "append_completions
          (st\<lparr>m_log_records := complete (m_log_records st) (m_flush_log_idx_from lg) (m_flush_log_idx_upto lg),
              m_last_flush_idx := m_flush_log_idx_upto lg\<rparr>) lg
          \<lparr>key_idx = m_flush_log_idx_upto lg, dev_offset = m_log_dev_offset lg\<rparr>
          [m_flush_log_idx_from lg..m_flush_log_idx_upto lg] = Inr st2"
    and st3: "st3 = st2\<lparr>m_last_crc := cur_grp_crc (lg_header lg)\<rparr>"
    by (auto simp: flush_completed_def Let_def split: sum.splits)
  from append_completions_fields [OF a] st3 show ?thesis by simp
qed

lemma unlock_flush_inv:
  assumes "inflight st = []" and "crc_chained INVALID_CRC32_VALUE (vdev_writes st)"
      and "m_last_crc st = last_crc (vdev_writes st)"
      and "unlock_flush cfg crc st now = Inr st'"
  shows "flush_inv st'"
proof -
  let ?st1 = "if length (m_block_flush_q st) > 0
              then st\<lparr>events := events st @ map BlockedFlushCb (m_block_flush_q st), m_block_flush_q := []\<rparr>
              else st"
  let ?st2 = "?st1\<lparr>m_is_flushing := False, events := events ?st1 @ [FlushLockReleased]\<rparr>"
  have "flush_inv ?st2"
    using assms(1-3) by (simp add: flush_inv_def)
  moreover have "flush_if_needed cfg crc ?st2 0 (- 1) now = Inr st'"
    using assms(4) by (simp add: unlock_flush_def Let_def)
  ultimately show ?thesis by (rule flush_if_needed_inv)
qed

lemma process_logdev_completions_inv:
  assumes "flush_inv st" and "process_logdev_completions cfg crc st now = Inr st'"
  shows "flush_inv st'"
proof -
  from assms(2) obtain lg rest where inf: "inflight st = lg # rest"
    by (auto simp: process_logdev_completions_def split: list.splits)
  with assms(1) have rest: "rest = []" and lg: "lg = last (vdev_writes st)"
    and ne: "vdev_writes st \<noteq> []" and ch: "crc_chained INVALID_CRC32_VALUE (vdev_writes st)"
    by (auto simp: flush_inv_def)
  from assms(2) inf obtain st3 where
    fc: "flush_completed (st\<lparr>inflight := rest\<rparr>) lg = Inr st3"
    and ul: "unlock_flush cfg crc st3 now = Inr st'"
    by (auto simp: process_logdev_completions_def on_flush_completion_def split: sum.splits)
  from flush_completed_fields [OF fc] rest lg ne ch
  have "inflight st3 = []" "crc_chained INVALID_CRC32_VALUE (vdev_writes st3)"
       "m_last_crc st3 = last_crc (vdev_writes st3)"
    by (simp_all add: last_crc_def)
  then show ?thesis using ul by (rule unlock_flush_inv)
qed

lemma append_async_inv:
  assumes "flush_inv st" and "append_async cfg crc st sid seq d ctx now = Inr (idx, st')"
  shows "flush_inv st'"
proof -
  let ?st1 = "st\<lparr>m_log_idx := m_log_idx st + 1,
                 m_log_records := create (m_log_records st) (m_log_idx st)
                    \<lparr>rec_data = d, rec_context = ctx, store_id = sid, seq_num = seq\<rparr>\<rparr>"
  have "flush_inv ?st1" using assms(1) by (simp add: flush_inv_def)
  moreover have "flush_if_needed cfg crc ?st1 (of_nat (length (blob_data d))) (m_log_idx st) now = Inr st'"
    using assms(2) by (auto simp: append_async_def Let_def split: sum.splits)
  ultimately show ?thesis by (rule flush_if_needed_inv)
qed

lemma logdev_step_inv:
  assumes "flush_inv st" and "logdev_step cfg crc st x = Inr st'"
  shows "flush_inv st'"
proof -
  obtain op now where x: "x = (op, now)" by (cases x)
  show ?thesis
  proof (cases op)
    case (Append sid seq d ctx)
    with assms x append_async_inv [of st cfg crc sid seq d ctx now] show ?thesis
      by (auto split: sum.splits)
  next
    case TimerTick
    with assms x flush_if_needed_inv show ?thesis by auto
  next
    case WriteDone
    with assms x process_logdev_completions_inv show ?thesis by auto
  qed
qed

lemma logdev_run_inv:
  "flush_inv st \<Longrightarrow> logdev_run cfg crc st xs = Inr st' \<Longrightarrow> flush_inv st'"
proof (induction xs arbitrary: st)
  case Nil
  then show ?case by simp
next
  case (Cons x xs)
  then show ?case by (auto split: sum.splits dest: logdev_step_inv)
qed

lemma start_format_inv: "flush_inv (start_format ldev fsm t0)"
  by (simp add: flush_inv_def start_format_def last_crc_def)


lemmas logdev_defs =
  test_config_def hello_record_def toy_crc_def start_format_def
  append_async_def flush_if_needed_def flush_due_def flush_data_threshold_size_def
  prepare_flush_def make_log_group_def reset_def new_log_group_def finish_def add_record_def
  create_overflow_buf_def is_inlineable_def is_size_inlineable_def active_run_def
  create_def new_tracker_def at_def complete_def do_flush_def unlock_flush_def
  on_flush_completion_def flush_completed_def process_logdev_completions_def
  round_up_def sizeof_log_group_header_def sizeof_serialized_log_record_def
  sizeof_log_group_footer_def inline_log_buf_size_def empty_header_def
  INVALID_CRC32_VALUE_def LOG_GROUP_HDR_MAGIC_def Let_def

lemma not_isl_Inr_projr: "\<not> isl x \<Longrightarrow> x = Inr (projr x)"
  by (cases x) simp_all




subsection \<open>When a flush starts\<close>

text \<open>
  Claim C6.  On a device reached from \<open>format\<close> by appends, timer ticks and write
  completions, a call \<open>flush_if_needed(new_record_size, new_idx)\<close> that returns writes a
  group if and only if the pending size after adding \<open>new_record_size\<close> is at least
  \<open>flush_data_threshold_size\<close>, or is nonzero with more than \<open>max_time_between_flush_us\<close>
  elapsed since the last flush, and \<open>m_is_flushing\<close> was \<open>false\<close> (the compare-and-swap
  succeeds).  Then \<open>m_is_flushing\<close> is \<open>true\<close> afterwards and the new group is the one
  write in flight.  Otherwise the call only adds \<open>new_record_size\<close> to the pending size.
  At most one write is in flight before and after the call, and the lock is held while
  one is.  Calling again with nothing new at the same clock reading changes nothing.
\<close>

theorem flush_if_needed_gate:
  assumes run: "logdev_run cfg crc (start_format ldev fsm t0) ops = Inr st"
      and call: "flush_if_needed cfg crc st sz idx now = Inr st'"
  shows "((vdev_writes st' \<noteq> vdev_writes st) =
            (flush_due cfg st (m_pending_flush_size st + uint sz) now \<and> \<not> m_is_flushing st)) \<and>
         (flush_due cfg st (m_pending_flush_size st + uint sz) now \<and> \<not> m_is_flushing st \<longrightarrow>
            m_is_flushing st' \<and>
            vdev_writes st' = vdev_writes st @ [last (vdev_writes st')] \<and>
            inflight st' = [last (vdev_writes st')]) \<and>
         (\<not> (flush_due cfg st (m_pending_flush_size st + uint sz) now \<and> \<not> m_is_flushing st) \<longrightarrow>
            st' = st\<lparr>m_pending_flush_size := m_pending_flush_size st + uint sz\<rparr>) \<and>
         length (inflight st) \<le> 1 \<and> length (inflight st') \<le> 1 \<and>
         (inflight st' \<noteq> [] \<longrightarrow> m_is_flushing st') \<and>
         flush_if_needed cfg crc st' 0 (- 1) now = Inr st'"
proof -
  have inv: "flush_inv st" by (rule logdev_run_inv [OF start_format_inv run])
  have inv': "flush_inv st'" by (rule flush_if_needed_inv [OF inv call])
  let ?go = "flush_due cfg st (m_pending_flush_size st + uint sz) now \<and> \<not> m_is_flushing st"
  have idle: "\<not> ?go \<Longrightarrow> st' = st\<lparr>m_pending_flush_size := m_pending_flush_size st + uint sz\<rparr>"
    using flush_if_needed_idle [of cfg st sz now crc idx] call by simp
  have go: "m_is_flushing st' \<and> vdev_writes st' = vdev_writes st @ [last (vdev_writes st')] \<and>
            inflight st' = [last (vdev_writes st')]" if g: ?go
  proof -
    from g inv have "inflight st = []" by (auto simp: flush_inv_def)
    moreover from g call flush_if_needed_flushes [of cfg st sz now crc idx st']
    obtain lg tail where
      "st' = st\<lparr>m_pending_flush_size := m_pending_flush_size st + uint sz - int (m_actual_data_size lg),
                 m_is_flushing := True, m_last_flush_time := now, vdev_tail := tail,
                 vdev_writes := vdev_writes st @ [lg], inflight := inflight st @ [lg]\<rparr>"
      by blast
    ultimately show ?thesis by simp
  qed
  have iff: "(vdev_writes st' \<noteq> vdev_writes st) = ?go"
  proof (cases ?go)
    case True
    from go [OF True] have "vdev_writes st' = vdev_writes st @ [last (vdev_writes st')]" by simp
    then have "vdev_writes st' \<noteq> vdev_writes st" by (metis append_self_conv not_Cons_self2)
    with True show ?thesis by simp
  next
    case False
    from idle [OF False] False show ?thesis by simp
  qed
  have again: "flush_if_needed cfg crc st' 0 (- 1) now = Inr st'"
  proof (cases ?go)
    case True
    from go [OF True] have "m_is_flushing st'" by simp
    then show ?thesis
      using flush_if_needed_idle [of cfg st' 0 now crc "- 1"] by simp
  next
    case False
    from idle [OF False] False
    have "\<not> (flush_due cfg st' (m_pending_flush_size st' + uint (0 :: 32 word)) now \<and> \<not> m_is_flushing st')"
      by (auto simp: flush_due_def)
    from flush_if_needed_idle [OF this, of crc "- 1"] show ?thesis by simp
  qed
  from inv inv' have "length (inflight st) \<le> 1" "length (inflight st') \<le> 1"
    "inflight st' \<noteq> [] \<longrightarrow> m_is_flushing st'"
    by (simp_all add: flush_inv_def)
  with iff go idle again show ?thesis by blast
qed

lemma logdev_run_append:
  "logdev_run cfg crc st (xs @ ys) =
     (case logdev_run cfg crc st xs of Inl e \<Rightarrow> Inl e | Inr st' \<Rightarrow> logdev_run cfg crc st' ys)"
  by (induction xs arbitrary: st) (auto split: sum.splits)

lemma one_append_result:
  "map_sum id (\<lambda>st. (m_pending_flush_size st, m_is_flushing st, m_last_flush_time st, vdev_writes st))
     (logdev_run test_config toy_crc (start_format 1 512 0) [(Append 7 0 (rec_data hello_record) 0, 10)])
   = Inr (5, False, 0, [])"
  by (simp add: logdev_defs)

lemma one_flush_result:
  "map_sum id (\<lambda>st. (m_pending_flush_size st, m_is_flushing st, m_last_flush_time st,
                      length (vdev_writes st), length (inflight st)))
     (logdev_run test_config toy_crc (start_format 1 512 0) one_flush_run)
   = Inr (0, True, 1000, 1, 1)"
  by (simp add: one_flush_run_def logdev_defs)

theorem flush_if_needed_gate_witness:
  "logdev_run test_config toy_crc (start_format 1 512 0) [(Append 7 0 (rec_data hello_record) 0, 10)]
     = Inr (projr (logdev_run test_config toy_crc (start_format 1 512 0)
                     [(Append 7 0 (rec_data hello_record) 0, 10)])) \<and>
   flush_if_needed test_config toy_crc
       (projr (logdev_run test_config toy_crc (start_format 1 512 0)
                 [(Append 7 0 (rec_data hello_record) 0, 10)])) 0 (- 1) 1000
     = Inr (projr (logdev_run test_config toy_crc (start_format 1 512 0) one_flush_run)) \<and>
   length (vdev_writes (projr (logdev_run test_config toy_crc (start_format 1 512 0)
                 [(Append 7 0 (rec_data hello_record) 0, 10)]))) = 0 \<and>
   length (vdev_writes (projr (logdev_run test_config toy_crc (start_format 1 512 0) one_flush_run))) = 1 \<and>
   m_is_flushing (projr (logdev_run test_config toy_crc (start_format 1 512 0) one_flush_run)) \<and>
   inflight (projr (logdev_run test_config toy_crc (start_format 1 512 0) one_flush_run))
     = [last (vdev_writes (projr (logdev_run test_config toy_crc (start_format 1 512 0) one_flush_run)))] \<and>
   flush_if_needed test_config toy_crc
       (projr (logdev_run test_config toy_crc (start_format 1 512 0) one_flush_run)) 0 (- 1) 1000
     = Inr (projr (logdev_run test_config toy_crc (start_format 1 512 0) one_flush_run)) \<and>
   flush_due test_config (projr (logdev_run test_config toy_crc (start_format 1 512 0) one_flush_run))
     (m_pending_flush_size (projr (logdev_run test_config toy_crc (start_format 1 512 0) one_flush_run))
        + uint (100 :: 32 word)) 1010 \<and>
   flush_if_needed test_config toy_crc
       (projr (logdev_run test_config toy_crc (start_format 1 512 0) one_flush_run)) 100 (- 1) 1010
     = Inr ((projr (logdev_run test_config toy_crc (start_format 1 512 0) one_flush_run))
              \<lparr>m_pending_flush_size := 100\<rparr>)"
proof -
  let ?R1 = "logdev_run test_config toy_crc (start_format 1 512 0) [(Append 7 0 (rec_data hello_record) 0, 10)]"
  let ?R2 = "logdev_run test_config toy_crc (start_format 1 512 0) one_flush_run"
  from one_append_result have "\<not> isl ?R1" by (cases ?R1) simp_all
  then have h1: "?R1 = Inr (projr ?R1)" by (rule not_isl_Inr_projr)
  from one_flush_result have "\<not> isl ?R2" by (cases ?R2) simp_all
  then have h2: "?R2 = Inr (projr ?R2)" by (rule not_isl_Inr_projr)
  have "?R2 = (case ?R1 of Inl e \<Rightarrow> Inl e | Inr st \<Rightarrow> flush_if_needed test_config toy_crc st 0 (- 1) 1000)"
    using logdev_run_append [of test_config toy_crc "start_format 1 512 0"
            "[(Append 7 0 (rec_data hello_record) 0, 10)]" "[(TimerTick, 1000)]"]
    by (simp add: one_flush_run_def split: sum.splits)
  with h1 h2 have c1: "flush_if_needed test_config toy_crc (projr ?R1) 0 (- 1) 1000 = Inr (projr ?R2)"
    by (cases ?R1) simp_all
  from one_append_result h1
  have f1: "m_pending_flush_size (projr ?R1) = 5" "\<not> m_is_flushing (projr ?R1)"
           "m_last_flush_time (projr ?R1) = 0" "vdev_writes (projr ?R1) = []"
    by (cases ?R1; simp)+
  from one_flush_result h2
  have f2: "m_pending_flush_size (projr ?R2) = 0" "m_is_flushing (projr ?R2)"
           "m_last_flush_time (projr ?R2) = 1000" "length (vdev_writes (projr ?R2)) = 1"
    by (cases ?R2; simp)+
  have go1: "flush_due test_config (projr ?R1) (m_pending_flush_size (projr ?R1) + uint (0 :: 32 word)) 1000
               \<and> \<not> m_is_flushing (projr ?R1)"
    using f1 by (simp add: flush_due_def test_config_def)
  have due2: "flush_due test_config (projr ?R2) (m_pending_flush_size (projr ?R2) + uint (100 :: 32 word)) 1010"
    using f2 by (simp add: flush_due_def test_config_def flush_data_threshold_size_def sizeof_log_group_header_def)
  have idle2: "\<not> (flush_due test_config (projr ?R2)
                     (m_pending_flush_size (projr ?R2) + uint (100 :: 32 word)) 1010
                   \<and> \<not> m_is_flushing (projr ?R2))"
    using f2 by simp
  have c2: "flush_if_needed test_config toy_crc (projr ?R2) 100 (- 1) 1010
              = Inr ((projr ?R2)\<lparr>m_pending_flush_size := 100\<rparr>)"
    using flush_if_needed_idle [OF idle2, of toy_crc "- 1"] f2 by simp
  from flush_if_needed_gate [OF h1 c1] flush_if_needed_gate [OF h2 c2] go1 due2 h1 h2 c1 c2 f1 f2
  show ?thesis by simp
qed

text \<open>
  The estimate is narrowed to 32 bits on the way into \<open>prepare_flush\<close>.  On a device that
  has flushed nothing, a call that wins the lock with \<open>new_idx = 2147483647\<close> has the
  estimate \<open>2147483652\<close>, which is negative as an \<open>int32_t\<close>, and stops at the assertion; a
  call with \<open>new_idx = -4294967296\<close> has the estimate 5, like a call with \<open>new_idx = 0\<close>.
\<close>

lemma flush_if_needed_estimate_past_int32:
  assumes "flush_due cfg st (m_pending_flush_size st + uint sz) now" and "\<not> m_is_flushing st"
      and "m_last_flush_idx st = - 1"
  shows "flush_if_needed cfg crc st sz 2147483647 now = Inl AssertFailed"
proof -
  have "sint (word_of_int 2147483652 :: 32 word) = - 2147483644"
    by simp
  then show ?thesis
    using assms by (simp add: flush_if_needed_def prepare_flush_def flush_due_def Let_def)
qed

lemma flush_if_needed_estimate_narrowed:
  assumes "m_last_flush_idx st = - 1"
  shows "flush_if_needed cfg crc st sz (- 4294967296) now = flush_if_needed cfg crc st sz 0 now"
proof -
  have e: "(- 4294967291 :: 32 word) = 5"
    by simp
  show ?thesis
    using assms by (simp add: flush_if_needed_def Let_def) (subst e, simp)
qed

subsection \<open>What the completion of a flush does, and in which order\<close>

lemma append_completions_all:
  assumes "\<forall>idx \<in> set idxs. at (m_log_records st) idx = Some (r idx)"
  shows "append_completions st lg k idxs =
           Inr (st\<lparr>events := events st @
                  map (\<lambda>idx. AppendCompCb (store_id (r idx))
                                \<lparr>key_idx = idx, dev_offset = m_log_dev_offset lg\<rparr> k
                                (m_flush_log_idx_upto lg - idx) (rec_context (r idx))) idxs\<rparr>)"
  using assms
proof (induction idxs arbitrary: st)
  case Nil
  then show ?case by simp
next
  case (Cons i idxs)
  let ?st1 = "st\<lparr>events := events st @
                   [AppendCompCb (store_id (r i)) \<lparr>key_idx = i, dev_offset = m_log_dev_offset lg\<rparr> k
                      (m_flush_log_idx_upto lg - i) (rec_context (r i))]\<rparr>"
  from Cons.prems have "\<forall>idx \<in> set idxs. at (m_log_records ?st1) idx = Some (r idx)"
    by simp
  from Cons.IH [OF this] Cons.prems show ?case by simp
qed

lemma unlock_flush_unfold:
  "unlock_flush cfg crc s now =
     flush_if_needed cfg crc
       (s\<lparr>m_is_flushing := False, m_block_flush_q := [],
          events := events s @ map BlockedFlushCb (m_block_flush_q s) @ [FlushLockReleased]\<rparr>)
       0 (- 1) now"
  by (cases s) (auto simp: unlock_flush_def Let_def)

text \<open>
  Claim C7.  When \<open>on_flush_completion(lg)\<close> runs for a group covering the log indexes
  \<open>from..upto\<close>, all of them in the tracker: the tracker entries \<open>from..upto\<close> are marked
  complete, \<open>m_last_flush_idx\<close> is \<open>upto\<close>, the append callback has been called once for
  each index, in ascending order, with \<open>nremaining_in_batch = upto - idx\<close>, and
  \<open>m_last_crc\<close> is the group's \<open>cur_grp_crc\<close>, all with \<open>m_is_flushing\<close> as it was; the rest
  of the function is \<open>unlock_flush\<close> on that state, which runs the queued callbacks, then
  stores \<open>false\<close> to \<open>m_is_flushing\<close>, then looks whether to flush again.
\<close>

theorem on_flush_completion_effects:
  assumes "\<forall>idx. m_flush_log_idx_from lg \<le> idx \<and> idx \<le> m_flush_log_idx_upto lg \<longrightarrow>
             at (m_log_records st) idx = Some (r idx)"
  shows "\<exists>st3.
     flush_completed st lg = Inr st3 \<and>
     on_flush_completion cfg crc st lg now = unlock_flush cfg crc st3 now \<and>
     (\<forall>idx. m_flush_log_idx_from lg \<le> idx \<and> idx \<le> m_flush_log_idx_upto lg \<longrightarrow>
        tr_completed (m_log_records st3) idx) \<and>
     m_last_flush_idx st3 = m_flush_log_idx_upto lg \<and>
     events st3 = events st @
        map (\<lambda>idx. AppendCompCb (store_id (r idx))
                      \<lparr>key_idx = idx, dev_offset = m_log_dev_offset lg\<rparr>
                      \<lparr>key_idx = m_flush_log_idx_upto lg, dev_offset = m_log_dev_offset lg\<rparr>
                      (m_flush_log_idx_upto lg - idx) (rec_context (r idx)))
            [m_flush_log_idx_from lg..m_flush_log_idx_upto lg] \<and>
     m_last_crc st3 = cur_grp_crc (lg_header lg) \<and>
     m_is_flushing st3 = m_is_flushing st \<and>
     m_block_flush_q st3 = m_block_flush_q st \<and>
     unlock_flush cfg crc st3 now =
       flush_if_needed cfg crc
         (st3\<lparr>m_is_flushing := False, m_block_flush_q := [],
              events := events st3 @ map BlockedFlushCb (m_block_flush_q st) @ [FlushLockReleased]\<rparr>)
         0 (- 1) now"
proof -
  let ?st1 = "st\<lparr>m_log_records :=
                    complete (m_log_records st) (m_flush_log_idx_from lg) (m_flush_log_idx_upto lg),
                 m_last_flush_idx := m_flush_log_idx_upto lg\<rparr>"
  let ?k = "\<lparr>key_idx = m_flush_log_idx_upto lg, dev_offset = m_log_dev_offset lg\<rparr>"
  let ?cbs = "map (\<lambda>idx. AppendCompCb (store_id (r idx))
                      \<lparr>key_idx = idx, dev_offset = m_log_dev_offset lg\<rparr> ?k
                      (m_flush_log_idx_upto lg - idx) (rec_context (r idx)))
                [m_flush_log_idx_from lg..m_flush_log_idx_upto lg]"
  let ?st3 = "?st1\<lparr>events := events st @ ?cbs, m_last_crc := cur_grp_crc (lg_header lg)\<rparr>"
  have "\<forall>idx \<in> set [m_flush_log_idx_from lg..m_flush_log_idx_upto lg].
          at (m_log_records ?st1) idx = Some (r idx)"
    using assms by (simp add: at_def complete_def)
  from append_completions_all [OF this, of lg ?k]
  have fc: "flush_completed st lg = Inr ?st3"
    by (simp add: flush_completed_def Let_def)
  have ofc: "on_flush_completion cfg crc st lg now = unlock_flush cfg crc ?st3 now"
    by (simp add: on_flush_completion_def fc)
  have ul: "unlock_flush cfg crc ?st3 now =
       flush_if_needed cfg crc
         (?st3\<lparr>m_is_flushing := False, m_block_flush_q := [],
              events := events ?st3 @ map BlockedFlushCb (m_block_flush_q st) @ [FlushLockReleased]\<rparr>)
         0 (- 1) now"
    by (simp add: unlock_flush_unfold)
  have comp: "\<forall>idx. m_flush_log_idx_from lg \<le> idx \<and> idx \<le> m_flush_log_idx_upto lg \<longrightarrow>
        tr_completed (m_log_records ?st3) idx"
    by (simp add: complete_def)
  show ?thesis
    by (rule exI [of _ ?st3]) (use fc ofc ul comp in simp)
qed

theorem on_flush_completion_effects_witness:
  "m_flush_log_idx_from group_of_two_records = 0 \<and>
   m_flush_log_idx_upto group_of_two_records = 1 \<and>
   at (m_log_records device_with_two_records) 0 = Some hello_record \<and>
   at (m_log_records device_with_two_records) 1 = Some (hello_record\<lparr>rec_context := 1\<rparr>) \<and>
   (\<exists>st3. flush_completed device_with_two_records group_of_two_records = Inr st3 \<and>
      events st3 =
        [AppendCompCb 7 \<lparr>key_idx = 0, dev_offset = 2048\<rparr> \<lparr>key_idx = 1, dev_offset = 2048\<rparr> 1 0,
         AppendCompCb 7 \<lparr>key_idx = 1, dev_offset = 2048\<rparr> \<lparr>key_idx = 1, dev_offset = 2048\<rparr> 0 1] \<and>
      tr_completed (m_log_records st3) 0 \<and> tr_completed (m_log_records st3) 1 \<and>
      m_last_flush_idx st3 = 1 \<and> m_last_crc st3 = 99 \<and> m_is_flushing st3) \<and>
   map_sum id (\<lambda>st. (events st, m_is_flushing st, m_block_flush_q st))
     (on_flush_completion test_config toy_crc device_with_two_records group_of_two_records 1500)
     = Inr ([AppendCompCb 7 \<lparr>key_idx = 0, dev_offset = 2048\<rparr> \<lparr>key_idx = 1, dev_offset = 2048\<rparr> 1 0,
             AppendCompCb 7 \<lparr>key_idx = 1, dev_offset = 2048\<rparr> \<lparr>key_idx = 1, dev_offset = 2048\<rparr> 0 1,
             BlockedFlushCb 5, FlushLockReleased], False, [])"
proof -
  let ?r = "\<lambda>idx :: int. if idx = 0 then hello_record else hello_record\<lparr>rec_context := 1\<rparr>"
  have g: "m_flush_log_idx_from group_of_two_records = 0" "m_flush_log_idx_upto group_of_two_records = 1"
          "m_log_dev_offset group_of_two_records = 2048"
          "cur_grp_crc (lg_header group_of_two_records) = 99"
    by (simp_all add: group_of_two_records_def new_log_group_def)
  have d: "m_is_flushing device_with_two_records" "events device_with_two_records = []"
    by (simp_all add: device_with_two_records_def start_format_def)
  have h: "\<forall>idx. m_flush_log_idx_from group_of_two_records \<le> idx \<and>
                 idx \<le> m_flush_log_idx_upto group_of_two_records \<longrightarrow>
             at (m_log_records device_with_two_records) idx = Some (?r idx)"
    by (auto simp: g device_with_two_records_def at_def create_def new_tracker_def)
  have u: "[0..1 :: int] = [0, 1]"
    by (simp add: upto.simps)
  from on_flush_completion_effects [OF h, of test_config toy_crc 1500]
  obtain st3 where
    "flush_completed device_with_two_records group_of_two_records = Inr st3"
    "tr_completed (m_log_records st3) 0" "tr_completed (m_log_records st3) 1"
    "m_last_flush_idx st3 = 1" "m_last_crc st3 = 99" "m_is_flushing st3"
    "events st3 =
        [AppendCompCb 7 \<lparr>key_idx = 0, dev_offset = 2048\<rparr> \<lparr>key_idx = 1, dev_offset = 2048\<rparr> 1 0,
         AppendCompCb 7 \<lparr>key_idx = 1, dev_offset = 2048\<rparr> \<lparr>key_idx = 1, dev_offset = 2048\<rparr> 0 1]"
    by (auto simp: g d u hello_record_def)
  then have ex: "\<exists>st3. flush_completed device_with_two_records group_of_two_records = Inr st3 \<and>
      events st3 =
        [AppendCompCb 7 \<lparr>key_idx = 0, dev_offset = 2048\<rparr> \<lparr>key_idx = 1, dev_offset = 2048\<rparr> 1 0,
         AppendCompCb 7 \<lparr>key_idx = 1, dev_offset = 2048\<rparr> \<lparr>key_idx = 1, dev_offset = 2048\<rparr> 0 1] \<and>
      tr_completed (m_log_records st3) 0 \<and> tr_completed (m_log_records st3) 1 \<and>
      m_last_flush_idx st3 = 1 \<and> m_last_crc st3 = 99 \<and> m_is_flushing st3"
    by blast
  have run: "map_sum id (\<lambda>st. (events st, m_is_flushing st, m_block_flush_q st))
     (on_flush_completion test_config toy_crc device_with_two_records group_of_two_records 1500)
     = Inr ([AppendCompCb 7 \<lparr>key_idx = 0, dev_offset = 2048\<rparr> \<lparr>key_idx = 1, dev_offset = 2048\<rparr> 1 0,
             AppendCompCb 7 \<lparr>key_idx = 1, dev_offset = 2048\<rparr> \<lparr>key_idx = 1, dev_offset = 2048\<rparr> 0 1,
             BlockedFlushCb 5, FlushLockReleased], False, [])"
    by (simp add: device_with_two_records_def group_of_two_records_def u logdev_defs)
  have a: "at (m_log_records device_with_two_records) 0 = Some hello_record"
          "at (m_log_records device_with_two_records) 1 = Some (hello_record\<lparr>rec_context := 1\<rparr>)"
    by (simp_all add: device_with_two_records_def at_def create_def new_tracker_def)
  from g a ex run show ?thesis by blast
qed

section \<open>Properties of writing back a checkpoint\<close>

subsection \<open>Releasing a request\<close>

lemma release_req_frame [simp]:
  "n_reqs (release_req st d) = n_reqs st"
  "nodes (release_req st d) = nodes st"
  "m_req_list (release_req st d) = m_req_list st"
  "flush_iter (release_req st d) = flush_iter st"
  "m_dirty_buf_cnt (release_req st d) = m_dirty_buf_cnt st"
  "cp_comp_calls (release_req st d) = cp_comp_calls st"
  "memvecs (release_req st d) = memvecs st"
  by (simp_all add: release_req_def Let_def)

lemma release_req_fields [simp]:
  "req_bcp (reqs (release_req st d) r) = req_bcp (reqs st r)"
  "req_q (reqs (release_req st d) r) = req_q (reqs st r)"
  "req_bn (reqs (release_req st d) r) = req_bn (reqs st r)"
  by (simp_all add: release_req_def Let_def)

lemma release_req_state:
  "req_state (reqs (release_req st d) r) =
     (if r = d \<and> dependent_cnt (reqs st d) = 1 then WB_REQ_SENT else req_state (reqs st r))"
  by (simp add: release_req_def Let_def)

lemma release_req_cnt:
  "dependent_cnt (reqs (release_req st d) r) =
     (if r = d then dependent_cnt (reqs st d) - 1 else dependent_cnt (reqs st r))"
  by (simp add: release_req_def Let_def)

lemma req_in_slot_release [simp]:
  "req_in_slot (release_req st d) r j = req_in_slot st r j"
  by (simp add: req_in_slot_def)

lemma release_req_wf:
  assumes "wb_wf st"
  shows "wb_wf (release_req st d)"
  using assms unfolding wb_wf_def
  by (auto simp: release_req_state release_req_cnt)

lemma release_req_compl:
  assumes "wb_wf st"
  shows "(req_state (reqs (release_req st d) r) = WB_REQ_COMPL) = (req_state (reqs st r) = WB_REQ_COMPL)"
  using assms unfolding wb_wf_def
  by (auto simp: release_req_state)

lemma release_req_pending:
  assumes "wb_wf st"
  shows "cp_pending (release_req st d) cp = cp_pending st cp"
  using release_req_compl [OF assms] by (simp add: cp_pending_def)

lemma release_req_other_state:
  "r \<noteq> d \<Longrightarrow> req_state (reqs (release_req st d) r) = req_state (reqs st r)"
  by (simp add: release_req_state)

subsection \<open>The completion of a write\<close>

lemma pop_back_wf:
  assumes "wb_wf st"
  shows "wb_wf (st\<lparr>reqs := (reqs st)(w := (reqs st w)\<lparr>req_q := butlast (req_q (reqs st w))\<rparr>)\<rparr>)"
  using assms unfolding wb_wf_def req_in_slot_def
  by (auto dest: in_set_butlastD)

lemma drain_req_q_frame [simp]:
  "n_reqs (drain_req_q st w ds) = n_reqs st"
  "nodes (drain_req_q st w ds) = nodes st"
  "m_req_list (drain_req_q st w ds) = m_req_list st"
  "flush_iter (drain_req_q st w ds) = flush_iter st"
  "m_dirty_buf_cnt (drain_req_q st w ds) = m_dirty_buf_cnt st"
  "cp_comp_calls (drain_req_q st w ds) = cp_comp_calls st"
  by (induction ds arbitrary: st; simp)+

lemma drain_req_q_fields [simp]:
  "req_bcp (reqs (drain_req_q st w ds) r) = req_bcp (reqs st r)"
  "req_bn (reqs (drain_req_q st w ds) r) = req_bn (reqs st r)"
  by (induction ds arbitrary: st; simp)+

lemma drain_req_q_wf:
  "wb_wf st \<Longrightarrow> wb_wf (drain_req_q st w ds)"
proof (induction ds arbitrary: st)
  case Nil
  then show ?case by simp
next
  case (Cons d ds)
  from Cons.prems have "wb_wf (release_req
          (st\<lparr>reqs := (reqs st)(w := (reqs st w)\<lparr>req_q := butlast (req_q (reqs st w))\<rparr>)\<rparr>) d)"
    by (intro release_req_wf pop_back_wf)
  from Cons.IH [OF this] show ?case by simp
qed

lemma drain_req_q_compl:
  "wb_wf st \<Longrightarrow>
     (req_state (reqs (drain_req_q st w ds) r) = WB_REQ_COMPL) = (req_state (reqs st r) = WB_REQ_COMPL)"
proof (induction ds arbitrary: st)
  case Nil
  then show ?case by simp
next
  case (Cons d ds)
  let ?st1 = "st\<lparr>reqs := (reqs st)(w := (reqs st w)\<lparr>req_q := butlast (req_q (reqs st w))\<rparr>)\<rparr>"
  have wf1: "wb_wf ?st1" using Cons.prems by (rule pop_back_wf)
  have wf2: "wb_wf (release_req ?st1 d)" using wf1 by (rule release_req_wf)
  have "(req_state (reqs (drain_req_q st w (d # ds)) r) = WB_REQ_COMPL)
          = (req_state (reqs (release_req ?st1 d) r) = WB_REQ_COMPL)"
    using Cons.IH [OF wf2] by simp
  also have "\<dots> = (req_state (reqs ?st1 r) = WB_REQ_COMPL)"
    by (rule release_req_compl [OF wf1])
  also have "\<dots> = (req_state (reqs st r) = WB_REQ_COMPL)"
    by simp
  finally show ?case .
qed

lemma drain_req_q_other_state:
  "r \<notin> set ds \<Longrightarrow> req_state (reqs (drain_req_q st w ds) r) = req_state (reqs st r)"
proof (induction ds arbitrary: st)
  case Nil
  then show ?case by simp
next
  case (Cons d ds)
  then show ?case by (simp add: release_req_state)
qed

lemma completion_result:
  assumes "writeBack_completion_internal st r = Inr st'"
  shows "\<exists>c bn. req_bcp (reqs st r) = Some c \<and> st' = complete_req st r c bn"
  using assms
  by (auto simp: writeBack_completion_internal_def split: option.splits)

lemma complete_req_frame [simp]:
  "n_reqs (complete_req st r c bn) = n_reqs st"
  "m_req_list (complete_req st r c bn) = m_req_list st"
  "flush_iter (complete_req st r c bn) = flush_iter st"
  "req_bcp (reqs (complete_req st r c bn) x) = req_bcp (reqs st x)"
  by (simp_all add: complete_req_def Let_def)

lemma complete_req_dirty:
  "m_dirty_buf_cnt (complete_req st r c bn) j =
     (if j = cp_slot c then m_dirty_buf_cnt st j - 1 else m_dirty_buf_cnt st j)"
  by (simp add: complete_req_def Let_def)

lemma complete_req_calls:
  "cp_comp_calls (complete_req st r c bn) =
     cp_comp_calls st @ (if m_dirty_buf_cnt st (cp_slot c) - 1 = 0 then [(c, 0)] else [])"
  by (simp add: complete_req_def Let_def)

lemma complete_req_reqs:
  "reqs (complete_req st r c bn) =
     reqs (drain_req_q (st\<lparr>reqs := (reqs st)(r := (reqs st r)\<lparr>req_state := WB_REQ_COMPL\<rparr>)\<rparr>) r
             (rev (req_q (reqs st r))))"
  by (simp add: complete_req_def Let_def)

lemma mark_compl_wf:
  assumes "wb_wf st" and "req_state (reqs st r) = WB_REQ_SENT"
  shows "wb_wf (st\<lparr>reqs := (reqs st)(r := (reqs st r)\<lparr>req_state := WB_REQ_COMPL\<rparr>)\<rparr>)"
  using assms unfolding wb_wf_def req_in_slot_def by auto

lemma complete_req_compl:
  assumes "wb_wf st" and "req_state (reqs st r) = WB_REQ_SENT"
  shows "(req_state (reqs (complete_req st r c bn) x) = WB_REQ_COMPL)
           = (x = r \<or> req_state (reqs st x) = WB_REQ_COMPL)"
  using drain_req_q_compl [OF mark_compl_wf [OF assms], of r "rev (req_q (reqs st r))" x]
  by (auto simp: complete_req_reqs)

lemma nodes_update_wf:
  assumes "wb_wf st"
  shows "wb_wf (st\<lparr>nodes := (nodes st)(bn := (nodes st bn)\<lparr>bn_req := (bn_req (nodes st bn))(j := None)\<rparr>),
                   m_dirty_buf_cnt := f\<rparr>)"
  using assms unfolding wb_wf_def req_in_slot_def
  by (auto split: if_splits)

lemma calls_update_wf:
  "wb_wf (st\<lparr>cp_comp_calls := cs\<rparr>) = wb_wf st"
  unfolding wb_wf_def req_in_slot_def by simp

lemma complete_req_wf:
  assumes "wb_wf st" and "req_state (reqs st r) = WB_REQ_SENT"
  shows "wb_wf (complete_req st r c bn)"
proof -
  let ?st2 = "drain_req_q (st\<lparr>reqs := (reqs st)(r := (reqs st r)\<lparr>req_state := WB_REQ_COMPL\<rparr>)\<rparr>) r
                (rev (req_q (reqs st r)))"
  have wf2: "wb_wf ?st2"
    by (intro drain_req_q_wf mark_compl_wf assms)
  show ?thesis
    unfolding complete_req_def Let_def
    using nodes_update_wf [OF wf2]
    by (simp add: calls_update_wf)
qed

lemma complete_req_other_slot_state:
  assumes "wb_wf st" and "req_bcp (reqs st r) = Some c" and "\<not> req_in_slot st x (cp_slot c)"
  shows "req_state (reqs (complete_req st r c bn) x) = req_state (reqs st x)"
proof -
  let ?st1 = "st\<lparr>reqs := (reqs st)(r := (reqs st r)\<lparr>req_state := WB_REQ_COMPL\<rparr>)\<rparr>"
  from assms(2,3) have xr: "x \<noteq> r" by (auto simp: req_in_slot_def)
  from assms have "x \<notin> set (rev (req_q (reqs st r)))"
    unfolding wb_wf_def by auto
  then have "req_state (reqs (drain_req_q ?st1 r (rev (req_q (reqs st r)))) x) = req_state (reqs ?st1 x)"
    by (rule drain_req_q_other_state)
  then show ?thesis using xr by (simp add: complete_req_reqs)
qed

subsection \<open>Writing a node\<close>

lemma cp_pending_bounded:
  assumes "wb_wf st"
  shows "cp_pending st cp \<subseteq> {r. r < n_reqs st}"
proof
  fix r assume "r \<in> cp_pending st cp"
  then have "req_bcp (reqs st r) = Some cp" by (simp add: cp_pending_def)
  with assms show "r \<in> {r. r < n_reqs st}"
    unfolding wb_wf_def by (metis linorder_not_less mem_Collect_eq option.distinct(1))
qed

lemma cp_pending_finite:
  "wb_wf st \<Longrightarrow> finite (cp_pending st cp)"
  by (rule finite_subset [OF cp_pending_bounded]) simp_all

lemma create_wb_req_frame [simp]:
  "flush_iter (create_wb_req st bn bcp) = flush_iter st"
  "cp_comp_calls (create_wb_req st bn bcp) = cp_comp_calls st"
  "n_reqs (create_wb_req st bn bcp) = Suc (n_reqs st)"
  by (simp_all add: create_wb_req_def Let_def)

lemma create_wb_req_fields:
  "req_bcp (reqs (create_wb_req st bn bcp) x) = (if x = n_reqs st then Some bcp else req_bcp (reqs st x))"
  "req_state (reqs (create_wb_req st bn bcp) x) =
     (if x = n_reqs st then WB_REQ_WAITING else req_state (reqs st x))"
  "m_dirty_buf_cnt (create_wb_req st bn bcp) j =
     (if j = cp_slot bcp then m_dirty_buf_cnt st j + 1 else m_dirty_buf_cnt st j)"
  "bn_req (nodes (create_wb_req st bn bcp) bn) (cp_slot bcp) = Some (n_reqs st)"
  "m_req_list (create_wb_req st bn bcp) j =
     (if j = cp_slot bcp then m_req_list st j @ [n_reqs st] else m_req_list st j)"
  by (simp_all add: create_wb_req_def Let_def)

lemma req_in_slot_create:
  assumes "wb_wf st"
  shows "req_in_slot (create_wb_req st bn bcp) x j =
           (if x = n_reqs st then j = cp_slot bcp else req_in_slot st x j)"
  by (auto simp: req_in_slot_def create_wb_req_fields)

lemma req_in_slot_allocated:
  assumes "wb_wf st" and "req_in_slot st x j"
  shows "x < n_reqs st"
  using assms unfolding wb_wf_def req_in_slot_def
  by (metis linorder_not_less option.distinct(1))

lemma create_wb_req_wf:
  assumes "wb_wf st"
  shows "wb_wf (create_wb_req st bn bcp)"
proof -
  let ?st' = "create_wb_req st bn bcp"
  note ris = req_in_slot_create [OF assms]
  have old: "\<And>x j. req_in_slot st x j \<Longrightarrow> req_in_slot ?st' x j"
    using req_in_slot_allocated [OF assms] by (auto simp: ris)
  have a: "\<forall>r. n_reqs ?st' \<le> r \<longrightarrow> req_bcp (reqs ?st' r) = None"
    using assms unfolding wb_wf_def by (simp add: create_wb_req_fields)
  have b: "\<forall>r. req_state (reqs ?st' r) = WB_REQ_SENT \<or> req_state (reqs ?st' r) = WB_REQ_COMPL \<longrightarrow>
               dependent_cnt (reqs ?st' r) \<le> 0"
    using assms unfolding wb_wf_def by (auto simp: create_wb_req_def Let_def)
  have c: "\<forall>r d c. d \<in> set (req_q (reqs ?st' r)) \<and> req_bcp (reqs ?st' r) = Some c \<longrightarrow>
               req_in_slot ?st' d (cp_slot c)"
  proof (intro allI impI)
    fix r d c assume h: "d \<in> set (req_q (reqs ?st' r)) \<and> req_bcp (reqs ?st' r) = Some c"
    then have rn: "r \<noteq> n_reqs st"
      by (auto simp: create_wb_req_def Let_def make_request_def)
    with h have "d \<in> set (req_q (reqs st r))" "req_bcp (reqs st r) = Some c"
      by (auto simp: create_wb_req_def Let_def)
    with assms have "req_in_slot st d (cp_slot c)" unfolding wb_wf_def by blast
    then show "req_in_slot ?st' d (cp_slot c)" by (rule old)
  qed
  have d: "\<forall>j r. r \<in> set (m_req_list ?st' j) \<longrightarrow> req_in_slot ?st' r j"
  proof (intro allI impI)
    fix j r assume "r \<in> set (m_req_list ?st' j)"
    then have "r = n_reqs st \<and> j = cp_slot bcp \<or> r \<in> set (m_req_list st j)"
      by (auto simp: create_wb_req_def Let_def split: if_splits)
    then show "req_in_slot ?st' r j"
    proof
      assume "r = n_reqs st \<and> j = cp_slot bcp"
      then show ?thesis by (simp add: ris)
    next
      assume "r \<in> set (m_req_list st j)"
      with assms have "req_in_slot st r j" unfolding wb_wf_def by blast
      then show ?thesis by (rule old)
    qed
  qed
  have e: "\<forall>j c rest. flush_iter ?st' j = Some (c, rest) \<longrightarrow>
             cp_slot c = j \<and> (\<forall>r \<in> set rest. req_in_slot ?st' r j)"
    using assms old unfolding wb_wf_def by (simp; blast)
  have f: "\<forall>n j r. bn_req (nodes ?st' n) j = Some r \<longrightarrow> req_in_slot ?st' r j"
  proof (intro allI impI)
    fix n j r assume "bn_req (nodes ?st' n) j = Some r"
    then have "r = n_reqs st \<and> j = cp_slot bcp \<or> bn_req (nodes st n) j = Some r"
      by (auto simp: create_wb_req_def Let_def split: if_splits)
    then show "req_in_slot ?st' r j"
    proof
      assume "r = n_reqs st \<and> j = cp_slot bcp"
      then show ?thesis by (simp add: ris)
    next
      assume "bn_req (nodes st n) j = Some r"
      with assms have "req_in_slot st r j" unfolding wb_wf_def by blast
      then show ?thesis by (rule old)
    qed
  qed
  from a b c d e f show ?thesis unfolding wb_wf_def by blast
qed

lemma update_wb_req_frame [simp]:
  "flush_iter (update_wb_req st bn r) = flush_iter st"
  "cp_comp_calls (update_wb_req st bn r) = cp_comp_calls st"
  "n_reqs (update_wb_req st bn r) = n_reqs st"
  "m_dirty_buf_cnt (update_wb_req st bn r) = m_dirty_buf_cnt st"
  "nodes (update_wb_req st bn r) = nodes st"
  "m_req_list (update_wb_req st bn r) = m_req_list st"
  "req_bcp (reqs (update_wb_req st bn r) x) = req_bcp (reqs st x)"
  "req_state (reqs (update_wb_req st bn r) x) = req_state (reqs st x)"
  by (simp_all add: update_wb_req_def)

lemma update_wb_req_wf:
  "wb_wf st \<Longrightarrow> wb_wf (update_wb_req st bn r)"
  unfolding wb_wf_def req_in_slot_def by (auto simp: update_wb_req_def)

lemma add_dependent_frame [simp]:
  "flush_iter (add_dependent st d w) = flush_iter st"
  "cp_comp_calls (add_dependent st d w) = cp_comp_calls st"
  "n_reqs (add_dependent st d w) = n_reqs st"
  "m_dirty_buf_cnt (add_dependent st d w) = m_dirty_buf_cnt st"
  "nodes (add_dependent st d w) = nodes st"
  "m_req_list (add_dependent st d w) = m_req_list st"
  "req_bcp (reqs (add_dependent st d w) x) = req_bcp (reqs st x)"
  "req_state (reqs (add_dependent st d w) x) = req_state (reqs st x)"
  by (simp_all add: add_dependent_def Let_def)

lemma add_dependent_wf:
  assumes "wb_wf st" and "req_in_slot st d j" and "req_in_slot st w j"
      and "req_state (reqs st w) = WB_REQ_WAITING"
  shows "wb_wf (add_dependent st d w)"
proof -
  let ?st' = "add_dependent st d w"
  have ris: "\<And>x k. req_in_slot ?st' x k = req_in_slot st x k"
    by (simp add: req_in_slot_def)
  have q: "\<And>r. set (req_q (reqs ?st' r)) = (if r = d then insert w (set (req_q (reqs st r))) else set (req_q (reqs st r)))"
    by (auto simp: add_dependent_def Let_def)
  have cnt: "\<And>r. r \<noteq> w \<Longrightarrow> dependent_cnt (reqs ?st' r) = dependent_cnt (reqs st r)"
    by (simp add: add_dependent_def Let_def)
  have b: "\<forall>r. req_state (reqs ?st' r) = WB_REQ_SENT \<or> req_state (reqs ?st' r) = WB_REQ_COMPL \<longrightarrow>
               dependent_cnt (reqs ?st' r) \<le> 0"
    using assms(1,4) cnt unfolding wb_wf_def by (metis add_dependent_frame(8) writeback_req_state.distinct(7,9))
  have c: "\<forall>r x c. x \<in> set (req_q (reqs ?st' r)) \<and> req_bcp (reqs ?st' r) = Some c \<longrightarrow>
               req_in_slot ?st' x (cp_slot c)"
  proof (intro allI impI)
    fix r x c assume h: "x \<in> set (req_q (reqs ?st' r)) \<and> req_bcp (reqs ?st' r) = Some c"
    show "req_in_slot ?st' x (cp_slot c)"
    proof (cases "r = d \<and> x = w")
      case True
      with h assms(2) have "cp_slot c = j" by (auto simp: req_in_slot_def)
      with True assms(3) show ?thesis by (simp add: ris)
    next
      case False
      with h have "x \<in> set (req_q (reqs st r))" "req_bcp (reqs st r) = Some c"
        by (auto simp: q split: if_splits)
      with assms(1) show ?thesis unfolding wb_wf_def ris by blast
    qed
  qed
  from assms(1) b c show ?thesis
    unfolding wb_wf_def by (simp add: ris)
qed

text \<open>The shapes of a successful \<open>write\<close>.\<close>

lemma wb_write_result:
  assumes "wb_write st bn dep bcp = Inr st'"
  shows "\<exists>st1 w.
           (bn_req (nodes st bn) (cp_slot bcp) = None \<and> st1 = create_wb_req st bn bcp \<or>
            (\<exists>r. bn_req (nodes st bn) (cp_slot bcp) = Some r \<and> st1 = update_wb_req st bn r)) \<and>
           bn_req (nodes st1 bn) (cp_slot bcp) = Some w \<and>
           req_state (reqs st1 w) = WB_REQ_WAITING \<and>
           (st' = st1 \<or>
            (\<exists>dn d. dep = Some dn \<and> bn_req (nodes st dn) (cp_slot bcp) = Some d \<and>
                    st' = add_dependent st1 d w))"
  using assms unfolding wb_write_def Let_def
  by (auto split: option.splits if_splits sum.splits)

lemma wb_write_effect:
  assumes wf: "wb_wf st" and w: "wb_write st bn dep c = Inr st'"
  shows "wb_wf st' \<and> flush_iter st' = flush_iter st \<and> cp_comp_calls st' = cp_comp_calls st \<and>
         (\<exists>new. (\<forall>x. req_bcp (reqs st' x) =
                        (if new \<and> x = n_reqs st then Some c else req_bcp (reqs st x))) \<and>
                (\<forall>x. req_state (reqs st' x) =
                        (if new \<and> x = n_reqs st then WB_REQ_WAITING else req_state (reqs st x))) \<and>
                (\<forall>k. m_dirty_buf_cnt st' k =
                        (if new \<and> k = cp_slot c then m_dirty_buf_cnt st k + 1 else m_dirty_buf_cnt st k)) \<and>
                (\<forall>k. m_req_list st' k =
                        (if new \<and> k = cp_slot c then m_req_list st k @ [n_reqs st] else m_req_list st k)))"
proof -
  let ?j = "cp_slot c"
  from wb_write_result [OF w] obtain st1 wr where
    st1: "bn_req (nodes st bn) ?j = None \<and> st1 = create_wb_req st bn c \<or>
          (\<exists>r. bn_req (nodes st bn) ?j = Some r \<and> st1 = update_wb_req st bn r)"
    and wr: "bn_req (nodes st1 bn) ?j = Some wr" "req_state (reqs st1 wr) = WB_REQ_WAITING"
    and st': "st' = st1 \<or>
              (\<exists>dn d. dep = Some dn \<and> bn_req (nodes st dn) ?j = Some d \<and> st' = add_dependent st1 d wr)"
    by blast
  define new where "new = (bn_req (nodes st bn) ?j = None)"
  have wf1: "wb_wf st1"
    using st1 wf by (auto intro: create_wb_req_wf update_wb_req_wf)
  have f1: "flush_iter st1 = flush_iter st" "cp_comp_calls st1 = cp_comp_calls st"
    using st1 by auto
  have b1: "\<And>x. req_bcp (reqs st1 x) = (if new \<and> x = n_reqs st then Some c else req_bcp (reqs st x))"
    using st1 by (auto simp: new_def create_wb_req_fields)
  have s1: "\<And>x. req_state (reqs st1 x) =
                 (if new \<and> x = n_reqs st then WB_REQ_WAITING else req_state (reqs st x))"
    using st1 by (auto simp: new_def create_wb_req_fields)
  have d1: "\<And>k. m_dirty_buf_cnt st1 k =
                 (if new \<and> k = ?j then m_dirty_buf_cnt st k + 1 else m_dirty_buf_cnt st k)"
    using st1 by (auto simp: new_def create_wb_req_fields)
  have l1: "\<And>k. m_req_list st1 k =
                 (if new \<and> k = ?j then m_req_list st k @ [n_reqs st] else m_req_list st k)"
    using st1 by (auto simp: new_def create_wb_req_fields)
  have lift: "req_in_slot st1 x k" if h: "req_in_slot st x k" for x k
  proof -
    from req_in_slot_allocated [OF wf h] have "x \<noteq> n_reqs st" by simp
    with h have "req_in_slot (create_wb_req st bn c) x k"
      by (simp add: req_in_slot_create [OF wf])
    moreover from h have "req_in_slot (update_wb_req st bn r) x k" for r
      by (simp add: req_in_slot_def)
    ultimately show ?thesis using st1 by auto
  qed
  have wrs: "req_in_slot st1 wr ?j"
    using wf1 wr(1) unfolding wb_wf_def by blast
  from st' show ?thesis
  proof
    assume "st' = st1"
    with wf1 f1 b1 s1 d1 l1 show ?thesis by auto
  next
    assume "\<exists>dn d. dep = Some dn \<and> bn_req (nodes st dn) ?j = Some d \<and> st' = add_dependent st1 d wr"
    then obtain dn d where d: "bn_req (nodes st dn) ?j = Some d" and e: "st' = add_dependent st1 d wr"
      by blast
    from wf d have "req_in_slot st d ?j" unfolding wb_wf_def by blast
    then have "req_in_slot st1 d ?j" by (rule lift)
    from add_dependent_wf [OF wf1 this wrs wr(2)] have "wb_wf st'" by (simp add: e)
    with f1 b1 s1 d1 l1 e show ?thesis by auto
  qed
qed

lemma cp_comp_count_same:
  "cp_comp_calls st' = cp_comp_calls st \<Longrightarrow> cp_comp_count st' cp = cp_comp_count st cp"
  by (simp add: cp_comp_count_def)

lemma cp_pending_same:
  assumes "\<And>x. req_bcp (reqs st' x) = req_bcp (reqs st x)"
      and "\<And>x. req_bcp (reqs st x) = Some cp \<Longrightarrow>
              (req_state (reqs st' x) = WB_REQ_COMPL) = (req_state (reqs st x) = WB_REQ_COMPL)"
  shows "cp_pending st' cp = cp_pending st cp"
  using assms by (auto simp: cp_pending_def)

subsection \<open>One checkpoint under the events of the cache\<close>

lemma cp_invD:
  assumes "cp_inv cp ph st"
  shows "wb_wf st"
    and "\<forall>r c. req_bcp (reqs st r) = Some c \<and> cp_slot c = cp_slot cp \<and>
               req_state (reqs st r) \<noteq> WB_REQ_COMPL \<longrightarrow> c = cp"
    and "ph = Filling \<longrightarrow> (\<forall>r. req_bcp (reqs st r) = Some cp \<longrightarrow> req_state (reqs st r) = WB_REQ_WAITING)"
    and "(case flush_iter st (cp_slot cp) of None \<Rightarrow> ph \<noteq> Flushing
          | Some (c, rest) \<Rightarrow> ph = Flushing \<and> c = cp)"
    and "m_dirty_buf_cnt st (cp_slot cp) =
           int (card (cp_pending st cp)) + (if ph = Flushing then 1 else 0)"
    and "cp_comp_count st cp = (if ph = Flushed \<and> cp_pending st cp = {} then 1 else 0)"
    and "\<forall>x \<in> set (cp_comp_calls st). snd x = 0"
    and "ph = Filling \<longrightarrow> (\<forall>r \<in> set (m_req_list st (cp_slot cp)). req_bcp (reqs st r) = Some cp)"
  using assms unfolding cp_inv_def by blast+

lemma cp_invI:
  assumes "wb_wf st"
    and "\<forall>r c. req_bcp (reqs st r) = Some c \<and> cp_slot c = cp_slot cp \<and>
               req_state (reqs st r) \<noteq> WB_REQ_COMPL \<longrightarrow> c = cp"
    and "ph = Filling \<longrightarrow> (\<forall>r. req_bcp (reqs st r) = Some cp \<longrightarrow> req_state (reqs st r) = WB_REQ_WAITING)"
    and "(case flush_iter st (cp_slot cp) of None \<Rightarrow> ph \<noteq> Flushing
          | Some (c, rest) \<Rightarrow> ph = Flushing \<and> c = cp)"
    and "m_dirty_buf_cnt st (cp_slot cp) =
           int (card (cp_pending st cp)) + (if ph = Flushing then 1 else 0)"
    and "cp_comp_count st cp = (if ph = Flushed \<and> cp_pending st cp = {} then 1 else 0)"
    and "\<forall>x \<in> set (cp_comp_calls st). snd x = 0"
    and "ph = Filling \<longrightarrow> (\<forall>r \<in> set (m_req_list st (cp_slot cp)). req_bcp (reqs st r) = Some cp)"
  shows "cp_inv cp ph st"
  using assms unfolding cp_inv_def by blast

lemma cp_comp_count_append:
  "cp_comp_calls st' = cp_comp_calls st @ xs \<Longrightarrow>
     cp_comp_count st' cp = cp_comp_count st cp + length (filter (\<lambda>x. fst x = cp) xs)"
  by (simp add: cp_comp_count_def)

lemma wb_write_inv:
  assumes inv: "cp_inv cp ph st" and w: "wb_write st bn dep c = Inr st'"
      and prot: "cp_slot c = cp_slot cp \<longrightarrow> c = cp \<and> ph = Filling"
  shows "cp_inv cp ph st'"
proof (rule cp_invI)
  note i = cp_invD [OF inv]
  note wf = i(1)
  from wb_write_effect [OF wf w] obtain new where
    wf': "wb_wf st'" and it: "flush_iter st' = flush_iter st" and calls: "cp_comp_calls st' = cp_comp_calls st"
    and b: "\<And>x. req_bcp (reqs st' x) = (if new \<and> x = n_reqs st then Some c else req_bcp (reqs st x))"
    and s: "\<And>x. req_state (reqs st' x) =
                 (if new \<and> x = n_reqs st then WB_REQ_WAITING else req_state (reqs st x))"
    and d: "\<And>k. m_dirty_buf_cnt st' k =
                 (if new \<and> k = cp_slot c then m_dirty_buf_cnt st k + 1 else m_dirty_buf_cnt st k)"
    and l: "\<And>k. m_req_list st' k =
                 (if new \<and> k = cp_slot c then m_req_list st k @ [n_reqs st] else m_req_list st k)"
    by blast
  show "wb_wf st'" by (rule wf')
  have none: "req_bcp (reqs st (n_reqs st)) = None"
    using wf unfolding wb_wf_def by simp
  have pend: "cp_pending st' cp =
                (if new \<and> c = cp then insert (n_reqs st) (cp_pending st cp) else cp_pending st cp)"
    using none by (auto simp: cp_pending_def b s)
  have notin: "n_reqs st \<notin> cp_pending st cp"
    using none by (simp add: cp_pending_def)
  have card: "int (card (cp_pending st' cp)) =
                int (card (cp_pending st cp)) + (if new \<and> c = cp then 1 else 0)"
    using notin cp_pending_finite [OF wf, of cp] by (simp add: pend)
  show "\<forall>r c'. req_bcp (reqs st' r) = Some c' \<and> cp_slot c' = cp_slot cp \<and>
               req_state (reqs st' r) \<noteq> WB_REQ_COMPL \<longrightarrow> c' = cp"
    using i(2) prot by (auto simp: b s split: if_splits)
  show "ph = Filling \<longrightarrow>
         (\<forall>r. req_bcp (reqs st' r) = Some cp \<longrightarrow> req_state (reqs st' r) = WB_REQ_WAITING)"
    using i(3) by (auto simp: b s split: if_splits)
  show "(case flush_iter st' (cp_slot cp) of None \<Rightarrow> ph \<noteq> Flushing
             | Some (c, rest) \<Rightarrow> ph = Flushing \<and> c = cp)"
    using i(4) by (simp add: it)
  have slot: "(new \<and> cp_slot cp = cp_slot c) = (new \<and> c = cp)"
    using prot by auto
  show "m_dirty_buf_cnt st' (cp_slot cp) =
        int (card (cp_pending st' cp)) + (if ph = Flushing then 1 else 0)"
    using i(5) slot by (simp add: d card)
  have "ph = Flushed \<Longrightarrow> \<not> (new \<and> c = cp)"
    using prot by auto
  then show "cp_comp_count st' cp = (if ph = Flushed \<and> cp_pending st' cp = {} then 1 else 0)"
    using i(6) by (auto simp: cp_comp_count_same [OF calls] pend)
  show "\<forall>x \<in> set (cp_comp_calls st'). snd x = 0"
    using i(7) by (simp add: calls)
  show "ph = Filling \<longrightarrow> (\<forall>r \<in> set (m_req_list st' (cp_slot cp)). req_bcp (reqs st' r) = Some cp)"
  proof (intro impI ballI)
    fix r assume ph: "ph = Filling" and r: "r \<in> set (m_req_list st' (cp_slot cp))"
    show "req_bcp (reqs st' r) = Some cp"
    proof (cases "r \<in> set (m_req_list st (cp_slot cp))")
      case True
      with wf have "req_in_slot st r (cp_slot cp)" unfolding wb_wf_def by blast
      from req_in_slot_allocated [OF wf this] have "r \<noteq> n_reqs st" by simp
      with i(8) ph True show ?thesis by (simp add: b)
    next
      case False
      with r have "new \<and> cp_slot cp = cp_slot c \<and> r = n_reqs st"
        by (auto simp: l split: if_splits)
      with prot show ?thesis by (auto simp: b)
    qed
  qed
qed

lemma flush_begin_fields:
  "reqs (flush_begin st d) = reqs st"
  "n_reqs (flush_begin st d) = n_reqs st"
  "nodes (flush_begin st d) = nodes st"
  "m_req_list (flush_begin st d) = m_req_list st"
  "cp_comp_calls (flush_begin st d) = cp_comp_calls st"
  "flush_iter (flush_begin st d) k =
     (if k = cp_slot d then Some (d, m_req_list st k) else flush_iter st k)"
  "m_dirty_buf_cnt (flush_begin st d) k =
     (if k = cp_slot d then m_dirty_buf_cnt st k + 1 else m_dirty_buf_cnt st k)"
  by (simp_all add: flush_begin_def Let_def)

lemma flush_begin_pending:
  "cp_pending (flush_begin st d) cp = cp_pending st cp"
  by (simp add: cp_pending_def flush_begin_fields)

lemma flush_begin_wf:
  assumes "wb_wf st"
  shows "wb_wf (flush_begin st d)"
proof -
  have ris: "\<And>x k. req_in_slot (flush_begin st d) x k = req_in_slot st x k"
    by (simp add: req_in_slot_def flush_begin_fields)
  show ?thesis
    using assms unfolding wb_wf_def ris by (auto simp: flush_begin_fields)
qed

lemma flush_begin_inv_same:
  assumes inv: "cp_inv cp Filling st"
  shows "cp_inv cp Flushing (flush_begin st cp)"
proof (rule cp_invI)
  note i = cp_invD [OF inv]
  show "wb_wf (flush_begin st cp)" using i(1) by (rule flush_begin_wf)
  show "\<forall>r c. req_bcp (reqs (flush_begin st cp) r) = Some c \<and> cp_slot c = cp_slot cp \<and>
              req_state (reqs (flush_begin st cp) r) \<noteq> WB_REQ_COMPL \<longrightarrow> c = cp"
    using i(2) by (simp add: flush_begin_fields)
  show "Flushing = Filling \<longrightarrow> (\<forall>r. req_bcp (reqs (flush_begin st cp) r) = Some cp \<longrightarrow>
           req_state (reqs (flush_begin st cp) r) = WB_REQ_WAITING)"
    by simp
  show "(case flush_iter (flush_begin st cp) (cp_slot cp) of None \<Rightarrow> Flushing \<noteq> Flushing
          | Some (c, rest) \<Rightarrow> Flushing = Flushing \<and> c = cp)"
    by (simp add: flush_begin_fields)
  show "m_dirty_buf_cnt (flush_begin st cp) (cp_slot cp) =
           int (card (cp_pending (flush_begin st cp) cp)) + (if Flushing = Flushing then 1 else 0)"
    using i(5) by (simp add: flush_begin_fields flush_begin_pending)
  show "cp_comp_count (flush_begin st cp) cp =
          (if Flushing = Flushed \<and> cp_pending (flush_begin st cp) cp = {} then 1 else 0)"
    using i(6) by (simp add: cp_comp_count_def flush_begin_fields)
  show "\<forall>x \<in> set (cp_comp_calls (flush_begin st cp)). snd x = 0"
    using i(7) by (simp add: flush_begin_fields)
  show "Flushing = Filling \<longrightarrow>
          (\<forall>r \<in> set (m_req_list (flush_begin st cp) (cp_slot cp)). req_bcp (reqs (flush_begin st cp) r) = Some cp)"
    by simp
qed

lemma flush_begin_inv_other:
  assumes inv: "cp_inv cp ph st" and other: "cp_slot c \<noteq> cp_slot cp"
  shows "cp_inv cp ph (flush_begin st c)"
proof (rule cp_invI)
  note i = cp_invD [OF inv]
  show "wb_wf (flush_begin st c)" using i(1) by (rule flush_begin_wf)
  show "\<forall>r c'. req_bcp (reqs (flush_begin st c) r) = Some c' \<and> cp_slot c' = cp_slot cp \<and>
               req_state (reqs (flush_begin st c) r) \<noteq> WB_REQ_COMPL \<longrightarrow> c' = cp"
    using i(2) by (simp add: flush_begin_fields)
  show "ph = Filling \<longrightarrow> (\<forall>r. req_bcp (reqs (flush_begin st c) r) = Some cp \<longrightarrow>
           req_state (reqs (flush_begin st c) r) = WB_REQ_WAITING)"
    using i(3) by (simp add: flush_begin_fields)
  show "(case flush_iter (flush_begin st c) (cp_slot cp) of None \<Rightarrow> ph \<noteq> Flushing
          | Some (c, rest) \<Rightarrow> ph = Flushing \<and> c = cp)"
    using i(4) other by (simp add: flush_begin_fields)
  show "m_dirty_buf_cnt (flush_begin st c) (cp_slot cp) =
           int (card (cp_pending (flush_begin st c) cp)) + (if ph = Flushing then 1 else 0)"
    using i(5) other by (simp add: flush_begin_fields flush_begin_pending)
  show "cp_comp_count (flush_begin st c) cp =
          (if ph = Flushed \<and> cp_pending (flush_begin st c) cp = {} then 1 else 0)"
    using i(6) by (simp add: cp_comp_count_def flush_begin_fields flush_begin_pending)
  show "\<forall>x \<in> set (cp_comp_calls (flush_begin st c)). snd x = 0"
    using i(7) by (simp add: flush_begin_fields)
  show "ph = Filling \<longrightarrow>
          (\<forall>r \<in> set (m_req_list (flush_begin st c) (cp_slot cp)). req_bcp (reqs (flush_begin st c) r) = Some cp)"
    using i(8) by (simp add: flush_begin_fields)
qed

lemma flush_begin_inv:
  assumes inv: "cp_inv cp ph st"
      and prot: "cp_phase_step cp ph (WbFlushBegin c) = Some ph'"
  shows "cp_inv cp ph' (flush_begin st c)"
proof (cases "cp_slot c = cp_slot cp")
  case True
  with prot have "c = cp" "ph = Filling" "ph' = Flushing"
    by (auto split: if_splits)
  with inv show ?thesis by (simp add: flush_begin_inv_same)
next
  case False
  with prot have "ph' = ph" by simp
  with inv False show ?thesis by (simp add: flush_begin_inv_other)
qed

lemma flush_next_fields:
  assumes en: "flush_iter st j = Some (c, r # rest)"
  shows "flush_next st j = (release_req st r)\<lparr>flush_iter := (flush_iter st)(j := Some (c, rest))\<rparr>"
  using en by (simp add: flush_next_def)

lemma flush_next_wf:
  assumes wf: "wb_wf st" and en: "flush_iter st j = Some (c, r # rest)"
  shows "wb_wf (flush_next st j)"
proof -
  have wfr: "wb_wf (release_req st r)" using wf by (rule release_req_wf)
  have typed: "cp_slot c = j" "req_in_slot st r j" "\<forall>x \<in> set rest. req_in_slot st x j"
    using wf en unfolding wb_wf_def by auto
  show ?thesis
    using wfr typed unfolding wb_wf_def flush_next_fields [OF en] req_in_slot_def by auto
qed

lemma flush_next_inv:
  assumes inv: "cp_inv cp ph st" and en: "flush_iter st j = Some (c, r # rest)"
  shows "cp_inv cp ph (flush_next st j)"
proof (rule cp_invI)
  let ?st' = "flush_next st j"
  note i = cp_invD [OF inv]
  note wf = i(1)
  note st' = flush_next_fields [OF en]
  have typed: "cp_slot c = j" "req_in_slot st r j" "\<forall>x \<in> set rest. req_in_slot st x j"
    using wf en unfolding wb_wf_def by auto
  show "wb_wf ?st'" using wf en by (rule flush_next_wf)
  have pend: "cp_pending ?st' cp = cp_pending st cp"
    using release_req_pending [OF wf, of r cp] by (simp add: st' cp_pending_def)
  have calls: "cp_comp_calls ?st' = cp_comp_calls st"
    by (simp add: st')
  have dirty: "m_dirty_buf_cnt ?st' = m_dirty_buf_cnt st"
    by (simp add: st')
  have bcp: "\<And>x. req_bcp (reqs ?st' x) = req_bcp (reqs st x)"
    by (simp add: st')
  have compl: "\<And>x. (req_state (reqs ?st' x) = WB_REQ_COMPL) = (req_state (reqs st x) = WB_REQ_COMPL)"
    using release_req_compl [OF wf, of r] by (simp add: st')
  show "\<forall>x c'. req_bcp (reqs ?st' x) = Some c' \<and> cp_slot c' = cp_slot cp \<and>
               req_state (reqs ?st' x) \<noteq> WB_REQ_COMPL \<longrightarrow> c' = cp"
    using i(2) by (simp add: bcp compl)
  show "ph = Filling \<longrightarrow>
         (\<forall>x. req_bcp (reqs ?st' x) = Some cp \<longrightarrow> req_state (reqs ?st' x) = WB_REQ_WAITING)"
  proof (intro impI allI)
    fix x assume ph: "ph = Filling" and x: "req_bcp (reqs ?st' x) = Some cp"
    from i(4) ph have "flush_iter st (cp_slot cp) = None"
      by (auto split: option.splits)
    with en have "j \<noteq> cp_slot cp" by auto
    with typed(2) x have "x \<noteq> r" by (auto simp: req_in_slot_def bcp)
    then have "req_state (reqs ?st' x) = req_state (reqs st x)"
      by (simp add: st' release_req_state)
    with i(3) ph x show "req_state (reqs ?st' x) = WB_REQ_WAITING"
      by (simp add: bcp)
  qed
  show "(case flush_iter ?st' (cp_slot cp) of None \<Rightarrow> ph \<noteq> Flushing
             | Some (c, rest) \<Rightarrow> ph = Flushing \<and> c = cp)"
    using i(4) en by (auto simp: st' split: option.splits)
  show "m_dirty_buf_cnt ?st' (cp_slot cp) =
               int (card (cp_pending ?st' cp)) + (if ph = Flushing then 1 else 0)"
    using i(5) by (simp add: pend dirty)
  show "cp_comp_count ?st' cp = (if ph = Flushed \<and> cp_pending ?st' cp = {} then 1 else 0)"
    using i(6) by (simp add: pend cp_comp_count_same [OF calls])
  show "\<forall>x \<in> set (cp_comp_calls ?st'). snd x = 0"
    using i(7) by (simp add: calls)
  show "ph = Filling \<longrightarrow> (\<forall>x \<in> set (m_req_list ?st' (cp_slot cp)). req_bcp (reqs ?st' x) = Some cp)"
    using i(8) by (simp add: bcp) (simp add: st')
qed

lemma flush_end_fields:
  assumes "flush_iter st j = Some (c, [])"
  shows "reqs (flush_end st j) = reqs st"
    and "n_reqs (flush_end st j) = n_reqs st"
    and "nodes (flush_end st j) = nodes st"
    and "m_req_list (flush_end st j) = (m_req_list st)(j := [])"
    and "m_dirty_buf_cnt (flush_end st j) k =
           (if k = j then m_dirty_buf_cnt st j - 1 else m_dirty_buf_cnt st k)"
    and "flush_iter (flush_end st j) k = (if k = j then None else flush_iter st k)"
    and "cp_comp_calls (flush_end st j) =
           cp_comp_calls st @ (if m_dirty_buf_cnt st j - 1 = 0 then [(c, 0)] else [])"
  using assms by (simp_all add: flush_end_def Let_def)

lemma flush_end_pending:
  assumes "flush_iter st j = Some (c, [])"
  shows "cp_pending (flush_end st j) cp = cp_pending st cp"
  by (simp add: cp_pending_def flush_end_fields [OF assms])

lemma flush_end_wf:
  assumes "wb_wf st" and en: "flush_iter st j = Some (c, [])"
  shows "wb_wf (flush_end st j)"
proof -
  have ris: "\<And>x k. req_in_slot (flush_end st j) x k = req_in_slot st x k"
    by (simp add: req_in_slot_def flush_end_fields [OF en])
  show ?thesis
    using assms unfolding wb_wf_def ris by (auto simp: flush_end_fields [OF en])
qed

lemma flush_end_inv_same:
  assumes inv: "cp_inv cp Flushing st" and en: "flush_iter st (cp_slot cp) = Some (c, [])"
  shows "cp_inv cp Flushed (flush_end st (cp_slot cp))"
proof (rule cp_invI)
  let ?st' = "flush_end st (cp_slot cp)"
  note i = cp_invD [OF inv]
  note f = flush_end_fields [OF en]
  note pend = flush_end_pending [OF en]
  from i(4) en have c: "c = cp" by simp
  from i(5) have d: "m_dirty_buf_cnt st (cp_slot cp) = int (card (cp_pending st cp)) + 1"
    by simp
  from i(6) have cnt: "cp_comp_count st cp = 0" by simp
  have zero: "(m_dirty_buf_cnt st (cp_slot cp) - 1 = 0) = (cp_pending st cp = {})"
    using cp_pending_finite [OF i(1), of cp] by (simp add: d)
  show "wb_wf ?st'" using i(1) en by (rule flush_end_wf)
  show "\<forall>r c'. req_bcp (reqs ?st' r) = Some c' \<and> cp_slot c' = cp_slot cp \<and>
               req_state (reqs ?st' r) \<noteq> WB_REQ_COMPL \<longrightarrow> c' = cp"
    using i(2) by (simp add: f)
  show "Flushed = Filling \<longrightarrow> (\<forall>r. req_bcp (reqs ?st' r) = Some cp \<longrightarrow>
           req_state (reqs ?st' r) = WB_REQ_WAITING)"
    by simp
  show "(case flush_iter ?st' (cp_slot cp) of None \<Rightarrow> Flushed \<noteq> Flushing
          | Some (c, rest) \<Rightarrow> Flushed = Flushing \<and> c = cp)"
    by (simp add: f)
  show "m_dirty_buf_cnt ?st' (cp_slot cp) =
           int (card (cp_pending ?st' cp)) + (if Flushed = Flushing then 1 else 0)"
    by (simp add: f pend d)
  show "cp_comp_count ?st' cp = (if Flushed = Flushed \<and> cp_pending ?st' cp = {} then 1 else 0)"
    using cnt zero by (simp add: cp_comp_count_append [OF f(7)] pend c)
  show "\<forall>x \<in> set (cp_comp_calls ?st'). snd x = 0"
    using i(7) by (auto simp: f)
  show "Flushed = Filling \<longrightarrow> (\<forall>r \<in> set (m_req_list ?st' (cp_slot cp)). req_bcp (reqs ?st' r) = Some cp)"
    by simp
qed

lemma flush_end_inv_other:
  assumes inv: "cp_inv cp ph st" and en: "flush_iter st j = Some (c, [])"
      and other: "j \<noteq> cp_slot cp"
  shows "cp_inv cp ph (flush_end st j)"
proof (rule cp_invI)
  let ?st' = "flush_end st j"
  note i = cp_invD [OF inv]
  note f = flush_end_fields [OF en]
  note pend = flush_end_pending [OF en]
  have "cp_slot c = j" using i(1) en unfolding wb_wf_def by auto
  with other have ne: "c \<noteq> cp" by auto
  show "wb_wf ?st'" using i(1) en by (rule flush_end_wf)
  show "\<forall>r c'. req_bcp (reqs ?st' r) = Some c' \<and> cp_slot c' = cp_slot cp \<and>
               req_state (reqs ?st' r) \<noteq> WB_REQ_COMPL \<longrightarrow> c' = cp"
    using i(2) by (simp add: f)
  show "ph = Filling \<longrightarrow> (\<forall>r. req_bcp (reqs ?st' r) = Some cp \<longrightarrow>
           req_state (reqs ?st' r) = WB_REQ_WAITING)"
    using i(3) by (simp add: f)
  show "(case flush_iter ?st' (cp_slot cp) of None \<Rightarrow> ph \<noteq> Flushing
          | Some (c, rest) \<Rightarrow> ph = Flushing \<and> c = cp)"
    using i(4) other by (simp add: f)
  show "m_dirty_buf_cnt ?st' (cp_slot cp) =
           int (card (cp_pending ?st' cp)) + (if ph = Flushing then 1 else 0)"
    using i(5) other by (simp add: f pend)
  show "cp_comp_count ?st' cp = (if ph = Flushed \<and> cp_pending ?st' cp = {} then 1 else 0)"
    using i(6) ne by (simp add: cp_comp_count_append [OF f(7)] pend)
  show "\<forall>x \<in> set (cp_comp_calls ?st'). snd x = 0"
    using i(7) by (auto simp: f)
  show "ph = Filling \<longrightarrow> (\<forall>r \<in> set (m_req_list ?st' (cp_slot cp)). req_bcp (reqs ?st' r) = Some cp)"
    using i(8) other by (simp add: f)
qed

lemma flush_end_inv:
  assumes inv: "cp_inv cp ph st" and en: "flush_iter st j = Some (c, [])"
      and prot: "cp_phase_step cp ph (WbFlushEnd j) = Some ph'"
  shows "cp_inv cp ph' (flush_end st j)"
proof (cases "j = cp_slot cp")
  case True
  with prot have "ph = Flushing" "ph' = Flushed"
    by (auto split: if_splits)
  with inv en True show ?thesis by (simp add: flush_end_inv_same)
next
  case False
  with prot have "ph' = ph" by simp
  with inv en False show ?thesis by (simp add: flush_end_inv_other)
qed

lemma complete_req_inv_same:
  assumes inv: "cp_inv cp ph st" and sent: "req_state (reqs st r) = WB_REQ_SENT"
      and bcp: "req_bcp (reqs st r) = Some cp"
  shows "cp_inv cp ph (complete_req st r cp bn)"
proof (rule cp_invI)
  let ?st' = "complete_req st r cp bn"
  note i = cp_invD [OF inv]
  note wf = i(1)
  show wf': "wb_wf ?st'" using wf sent by (rule complete_req_wf)
  note compl = complete_req_compl [OF wf sent, of cp bn]
  note calls = complete_req_calls [of st r cp bn]
  from i(3) bcp sent have nf: "ph \<noteq> Filling" by auto
  have rin: "r \<in> cp_pending st cp"
    using bcp sent by (simp add: cp_pending_def)
  have pend: "cp_pending ?st' cp = cp_pending st cp - {r}"
    using compl by (auto simp: cp_pending_def)
  have "0 < card (cp_pending st cp)"
    using rin cp_pending_finite [OF wf, of cp] by (auto simp: card_gt_0_iff)
  then have card: "int (card (cp_pending ?st' cp)) = int (card (cp_pending st cp)) - 1"
    using rin by (simp add: pend of_nat_diff)
  note d = i(5)
  show c4: "m_dirty_buf_cnt ?st' (cp_slot cp) =
        int (card (cp_pending ?st' cp)) + (if ph = Flushing then 1 else 0)"
    by (simp add: complete_req_dirty d card)
  from i(6) rin have cnt0: "cp_comp_count st cp = 0" by auto
  have zero: "(m_dirty_buf_cnt st (cp_slot cp) - 1 = 0) = (ph = Flushed \<and> cp_pending ?st' cp = {})"
  proof -
    have "m_dirty_buf_cnt st (cp_slot cp) - 1 =
            int (card (cp_pending ?st' cp)) + (if ph = Flushing then 1 else 0)"
      by (simp add: d card)
    moreover have "finite (cp_pending ?st' cp)" by (rule cp_pending_finite [OF wf'])
    ultimately show ?thesis using nf by (cases ph) auto
  qed
  show "cp_comp_count ?st' cp = (if ph = Flushed \<and> cp_pending ?st' cp = {} then 1 else 0)"
    using cnt0 zero by (simp add: cp_comp_count_append [OF calls])
  show "ph = Filling \<longrightarrow>
         (\<forall>x. req_bcp (reqs ?st' x) = Some cp \<longrightarrow> req_state (reqs ?st' x) = WB_REQ_WAITING)"
    using nf by simp
  show "\<forall>x c'. req_bcp (reqs ?st' x) = Some c' \<and> cp_slot c' = cp_slot cp \<and>
               req_state (reqs ?st' x) \<noteq> WB_REQ_COMPL \<longrightarrow> c' = cp"
    using i(2) unfolding compl complete_req_frame by blast
  show "(case flush_iter ?st' (cp_slot cp) of None \<Rightarrow> ph \<noteq> Flushing
             | Some (c, rest) \<Rightarrow> ph = Flushing \<and> c = cp)"
    using i(4) by simp
  show "\<forall>x \<in> set (cp_comp_calls ?st'). snd x = 0"
    using i(7) by (auto simp: calls)
  show "ph = Filling \<longrightarrow> (\<forall>x \<in> set (m_req_list ?st' (cp_slot cp)). req_bcp (reqs ?st' x) = Some cp)"
    using nf by simp
qed

lemma complete_req_inv_other:
  assumes inv: "cp_inv cp ph st" and sent: "req_state (reqs st r) = WB_REQ_SENT"
      and bcp: "req_bcp (reqs st r) = Some c" and other: "cp_slot c \<noteq> cp_slot cp"
  shows "cp_inv cp ph (complete_req st r c bn)"
proof (rule cp_invI)
  let ?st' = "complete_req st r c bn"
  note i = cp_invD [OF inv]
  note wf = i(1)
  show wf': "wb_wf ?st'" using wf sent by (rule complete_req_wf)
  note compl = complete_req_compl [OF wf sent, of c bn]
  note calls = complete_req_calls [of st r c bn]
  from other have ne: "c \<noteq> cp" by auto
  have same: "\<And>x. req_bcp (reqs st x) = Some cp \<Longrightarrow>
                 req_state (reqs ?st' x) = req_state (reqs st x)"
  proof -
    fix x assume "req_bcp (reqs st x) = Some cp"
    with other have "\<not> req_in_slot st x (cp_slot c)" by (auto simp: req_in_slot_def)
    from complete_req_other_slot_state [OF wf bcp this] show
      "req_state (reqs ?st' x) = req_state (reqs st x)" .
  qed
  have pend: "cp_pending ?st' cp = cp_pending st cp"
    using same by (auto simp: cp_pending_def)
  show "ph = Filling \<longrightarrow>
         (\<forall>x. req_bcp (reqs ?st' x) = Some cp \<longrightarrow> req_state (reqs ?st' x) = WB_REQ_WAITING)"
    using i(3) same by simp
  show "m_dirty_buf_cnt ?st' (cp_slot cp) =
        int (card (cp_pending ?st' cp)) + (if ph = Flushing then 1 else 0)"
    using i(5) other by (simp add: complete_req_dirty pend)
  show "cp_comp_count ?st' cp = (if ph = Flushed \<and> cp_pending ?st' cp = {} then 1 else 0)"
    using i(6) ne by (simp add: cp_comp_count_append [OF calls] pend)
  show "\<forall>x c'. req_bcp (reqs ?st' x) = Some c' \<and> cp_slot c' = cp_slot cp \<and>
               req_state (reqs ?st' x) \<noteq> WB_REQ_COMPL \<longrightarrow> c' = cp"
    using i(2) unfolding compl complete_req_frame by blast
  show "(case flush_iter ?st' (cp_slot cp) of None \<Rightarrow> ph \<noteq> Flushing
             | Some (c, rest) \<Rightarrow> ph = Flushing \<and> c = cp)"
    using i(4) by simp
  show "\<forall>x \<in> set (cp_comp_calls ?st'). snd x = 0"
    using i(7) by (auto simp: calls)
  show "ph = Filling \<longrightarrow> (\<forall>x \<in> set (m_req_list ?st' (cp_slot cp)). req_bcp (reqs ?st' x) = Some cp)"
    using i(8) by simp
qed

lemma complete_req_inv:
  assumes inv: "cp_inv cp ph st" and sent: "req_state (reqs st r) = WB_REQ_SENT"
      and bcp: "req_bcp (reqs st r) = Some c"
  shows "cp_inv cp ph (complete_req st r c bn)"
proof (cases "cp_slot c = cp_slot cp")
  case True
  have "req_state (reqs st r) \<noteq> WB_REQ_COMPL" using sent by simp
  with cp_invD(2) [OF inv] bcp True have "c = cp" by blast
  with inv sent bcp show ?thesis by (simp add: complete_req_inv_same)
next
  case False
  with inv sent bcp show ?thesis by (rule complete_req_inv_other)
qed

lemma prepare_cp_result:
  assumes "prepare_cp st (Some c) = Inr st'"
  shows "st' = st \<and> m_dirty_buf_cnt st (cp_slot c) = 0 \<and> m_req_list st (cp_slot c) = []"
  using assms by (auto simp: prepare_cp_def Let_def split: if_splits)

lemma wb_step_inv:
  assumes inv: "cp_inv cp ph st" and step: "wb_step st e = Inr st'"
      and prot: "cp_phase_step cp ph e = Some ph'"
  shows "cp_inv cp ph' st'"
proof (cases e)
  case (WbPrepareCp c)
  with step have "prepare_cp st (Some c) = Inr st'" by (simp split: sum.splits)
  from prepare_cp_result [OF this] have "st' = st" by simp
  moreover from prot WbPrepareCp have "ph' = ph" by (simp split: if_splits)
  ultimately show ?thesis using inv by simp
next
  case (WbWrite bn dep c)
  with step have w: "wb_write st bn dep c = Inr st'"
    by (simp split: sum.splits)
  from prot WbWrite have "ph' = ph" and "cp_slot c = cp_slot cp \<longrightarrow> c = cp \<and> ph = Filling"
    by (auto split: if_splits)
  with wb_write_inv [OF inv w] show ?thesis by simp
next
  case (WbFlushBegin c)
  with step have "st' = flush_begin st c" by (simp split: if_splits)
  with flush_begin_inv [OF inv] prot WbFlushBegin show ?thesis by simp
next
  case (WbFlushNext j)
  with step obtain c r rest where "flush_iter st j = Some (c, r # rest)" and "st' = flush_next st j"
    by (auto split: option.splits list.splits)
  with flush_next_inv [OF inv] prot WbFlushNext show ?thesis by simp
next
  case (WbFlushEnd j)
  with step obtain c where "flush_iter st j = Some (c, [])" and "st' = flush_end st j"
    by (auto split: option.splits list.splits)
  with flush_end_inv [OF inv] prot WbFlushEnd show ?thesis by simp
next
  case (WbIoDone r)
  with step have sent: "req_state (reqs st r) = WB_REQ_SENT"
    and "writeBack_completion_internal st r = Inr st'"
    by (auto split: if_splits sum.splits)
  from completion_result [OF this(2)] obtain c bn where
    "req_bcp (reqs st r) = Some c" and "st' = complete_req st r c bn" by blast
  with complete_req_inv [OF inv sent] prot WbIoDone show ?thesis by simp
qed

lemma cp_all_written_pending:
  assumes "wb_wf st"
  shows "cp_all_written st cp = (cp_pending st cp = {})"
proof -
  from assms have "\<And>r. req_bcp (reqs st r) = Some cp \<Longrightarrow> r < n_reqs st"
    unfolding wb_wf_def by (metis linorder_not_less option.distinct(1))
  then show ?thesis
    unfolding cp_all_written_def cp_pending_def by auto
qed

lemma flush_buffers_no_dirty_node:
  assumes inv: "cp_inv cp Filling st" and none: "cp_pending st cp = {}"
  shows "cp_comp_calls (flush_buffers st cp) = cp_comp_calls st @ [(cp, 0)]"
proof -
  note i = cp_invD [OF inv]
  have empty: "m_req_list st (cp_slot cp) = []"
  proof (rule ccontr)
    assume "m_req_list st (cp_slot cp) \<noteq> []"
    then obtain r where "r \<in> set (m_req_list st (cp_slot cp))"
      by (cases "m_req_list st (cp_slot cp)") auto
    with i(8) have b: "req_bcp (reqs st r) = Some cp" by simp
    with i(3) have "req_state (reqs st r) = WB_REQ_WAITING" by simp
    with b have "r \<in> cp_pending st cp" by (simp add: cp_pending_def)
    with none show False by simp
  qed
  from i(5) none have d: "m_dirty_buf_cnt st (cp_slot cp) = 0" by simp
  have fb: "flush_buffers st cp = flush_end (flush_begin st cp) (cp_slot cp)"
    by (simp add: flush_buffers_def empty Let_def)
  have it: "flush_iter (flush_begin st cp) (cp_slot cp) = Some (cp, [])"
    by (simp add: flush_begin_fields empty)
  show ?thesis
    unfolding fb by (simp add: flush_end_fields(7) [OF it] flush_begin_fields d)
qed

subsection \<open>All checkpoints under the events of the cache\<close>

lemma wb_step_effect:
  assumes wf: "wb_wf st" and step: "wb_step st e = Inr st'"
  shows "\<exists>c. wb_touches st e c \<and> wb_wf st' \<and>
             (\<forall>x c'. req_bcp (reqs st' x) = Some c' \<longrightarrow> req_bcp (reqs st x) = Some c' \<or> c' = c) \<and>
             (\<forall>x. req_bcp (reqs st x) \<noteq> None \<and> req_state (reqs st x) = WB_REQ_COMPL \<longrightarrow>
                  req_state (reqs st' x) = WB_REQ_COMPL) \<and>
             (cp_comp_calls st' = cp_comp_calls st \<or> cp_comp_calls st' = cp_comp_calls st @ [(c, 0)]) \<and>
             (\<forall>k. k \<noteq> cp_slot c \<longrightarrow>
                  m_dirty_buf_cnt st' k = m_dirty_buf_cnt st k \<and> flush_iter st' k = flush_iter st k)"
proof (cases e)
  case (WbPrepareCp c)
  with step have "prepare_cp st (Some c) = Inr st'" by (simp split: sum.splits)
  from prepare_cp_result [OF this] have "st' = st" by simp
  with wf WbPrepareCp show ?thesis by auto
next
  case (WbWrite bn dep c)
  with step have w: "wb_write st bn dep c = Inr st'"
    by (simp split: sum.splits)
  from wb_write_effect [OF wf w] obtain new where
    wf': "wb_wf st'" and it: "flush_iter st' = flush_iter st" and calls: "cp_comp_calls st' = cp_comp_calls st"
    and b: "\<And>x. req_bcp (reqs st' x) = (if new \<and> x = n_reqs st then Some c else req_bcp (reqs st x))"
    and s: "\<And>x. req_state (reqs st' x) =
                 (if new \<and> x = n_reqs st then WB_REQ_WAITING else req_state (reqs st x))"
    and d: "\<And>k. m_dirty_buf_cnt st' k =
                 (if new \<and> k = cp_slot c then m_dirty_buf_cnt st k + 1 else m_dirty_buf_cnt st k)"
    by blast
  have none: "req_bcp (reqs st (n_reqs st)) = None"
    using wf unfolding wb_wf_def by simp
  have "wb_touches st e c" using WbWrite by simp
  moreover have "\<forall>x c'. req_bcp (reqs st' x) = Some c' \<longrightarrow> req_bcp (reqs st x) = Some c' \<or> c' = c"
    by (auto simp: b split: if_splits)
  moreover have "\<forall>x. req_bcp (reqs st x) \<noteq> None \<and> req_state (reqs st x) = WB_REQ_COMPL \<longrightarrow>
                  req_state (reqs st' x) = WB_REQ_COMPL"
    using none by (auto simp: s)
  moreover have "\<forall>k. k \<noteq> cp_slot c \<longrightarrow>
                  m_dirty_buf_cnt st' k = m_dirty_buf_cnt st k \<and> flush_iter st' k = flush_iter st k"
    by (simp add: d it)
  ultimately show ?thesis using wf' calls by blast
next
  case (WbFlushBegin c)
  with step have st': "st' = flush_begin st c" by (simp split: if_splits)
  have "wb_touches st e c" using WbFlushBegin by simp
  moreover have "wb_wf st'" unfolding st' using wf by (rule flush_begin_wf)
  ultimately show ?thesis by (auto simp: st' flush_begin_fields)
next
  case (WbFlushNext j)
  with step obtain c r rest where en: "flush_iter st j = Some (c, r # rest)" and st': "st' = flush_next st j"
    by (auto split: option.splits list.splits)
  have j: "cp_slot c = j" using wf en unfolding wb_wf_def by auto
  note f = flush_next_fields [OF en]
  have "wb_touches st e c" using WbFlushNext en by simp
  moreover have "wb_wf st'" unfolding st' using wf en by (rule flush_next_wf)
  moreover have "\<forall>x c'. req_bcp (reqs st' x) = Some c' \<longrightarrow> req_bcp (reqs st x) = Some c' \<or> c' = c"
    by (simp add: st' f)
  moreover have "\<forall>x. req_bcp (reqs st x) \<noteq> None \<and> req_state (reqs st x) = WB_REQ_COMPL \<longrightarrow>
                  req_state (reqs st' x) = WB_REQ_COMPL"
    using release_req_compl [OF wf, of r] by (simp add: st' f)
  moreover have "cp_comp_calls st' = cp_comp_calls st" by (simp add: st' f)
  moreover have "\<forall>k. k \<noteq> cp_slot c \<longrightarrow>
                  m_dirty_buf_cnt st' k = m_dirty_buf_cnt st k \<and> flush_iter st' k = flush_iter st k"
    by (simp add: st' f j)
  ultimately show ?thesis by blast
next
  case (WbFlushEnd j)
  with step obtain c where en: "flush_iter st j = Some (c, [])" and st': "st' = flush_end st j"
    by (auto split: option.splits list.splits)
  have j: "cp_slot c = j" using wf en unfolding wb_wf_def by auto
  note f = flush_end_fields [OF en]
  have "wb_touches st e c" using WbFlushEnd en by simp
  moreover have "wb_wf st'" unfolding st' using wf en by (rule flush_end_wf)
  moreover have "cp_comp_calls st' = cp_comp_calls st \<or> cp_comp_calls st' = cp_comp_calls st @ [(c, 0)]"
    by (simp add: st' f)
  moreover have "\<forall>k. k \<noteq> cp_slot c \<longrightarrow>
                  m_dirty_buf_cnt st' k = m_dirty_buf_cnt st k \<and> flush_iter st' k = flush_iter st k"
    by (simp add: st' f j)
  ultimately show ?thesis by (auto simp: st' f(1))
next
  case (WbIoDone r)
  with step have sent: "req_state (reqs st r) = WB_REQ_SENT"
    and "writeBack_completion_internal st r = Inr st'"
    by (auto split: if_splits sum.splits)
  from completion_result [OF this(2)] obtain c bn where
    bcp: "req_bcp (reqs st r) = Some c" and st': "st' = complete_req st r c bn" by blast
  have "wb_touches st e c" using WbIoDone bcp sent by simp
  moreover have "wb_wf st'" unfolding st' using wf sent by (rule complete_req_wf)
  moreover have "\<forall>x c'. req_bcp (reqs st' x) = Some c' \<longrightarrow> req_bcp (reqs st x) = Some c' \<or> c' = c"
    by (simp add: st')
  moreover have "\<forall>x. req_bcp (reqs st x) \<noteq> None \<and> req_state (reqs st x) = WB_REQ_COMPL \<longrightarrow>
                  req_state (reqs st' x) = WB_REQ_COMPL"
    by (simp add: st' complete_req_compl [OF wf sent])
  moreover have "cp_comp_calls st' = cp_comp_calls st \<or> cp_comp_calls st' = cp_comp_calls st @ [(c, 0)]"
    by (simp add: st' complete_req_calls)
  moreover have "\<forall>k. k \<noteq> cp_slot c \<longrightarrow>
                  m_dirty_buf_cnt st' k = m_dirty_buf_cnt st k \<and> flush_iter st' k = flush_iter st k"
    by (simp add: st' complete_req_dirty)
  ultimately show ?thesis by blast
qed

lemma cps_invD:
  assumes "cps_inv (cur, past) st"
  shows "wb_wf st"
    and "\<And>j. cur j = None \<Longrightarrow> slot_idle st j"
    and "\<And>j cp ph. cur j = Some (cp, ph) \<Longrightarrow> cp_slot cp = j \<and> cp_inv cp ph st"
    and "\<And>r c. req_bcp (reqs st r) = Some c \<Longrightarrow> cp_known (cur, past) c"
    and "\<And>x. x \<in> set (cp_comp_calls st) \<Longrightarrow> snd x = 0 \<and> cp_known (cur, past) (fst x)"
    and "\<And>c. c \<in> set past \<Longrightarrow>
           (\<forall>ph. cur (cp_slot c) \<noteq> Some (c, ph)) \<and> cp_pending st c = {} \<and> cp_comp_count st c = 1"
proof -
  from assms show "wb_wf st" by (simp add: cps_inv_def)
  from assms have a: "\<forall>j. case cur j of None \<Rightarrow> slot_idle st j
                           | Some (cp, ph) \<Rightarrow> cp_slot cp = j \<and> cp_inv cp ph st"
    by (simp add: cps_inv_def)
  show "\<And>j. cur j = None \<Longrightarrow> slot_idle st j"
  proof -
    fix j assume "cur j = None"
    with a [rule_format, of j] show "slot_idle st j" by simp
  qed
  show "\<And>j cp ph. cur j = Some (cp, ph) \<Longrightarrow> cp_slot cp = j \<and> cp_inv cp ph st"
  proof -
    fix j cp ph assume "cur j = Some (cp, ph)"
    with a [rule_format, of j] show "cp_slot cp = j \<and> cp_inv cp ph st" by simp
  qed
  from assms show "\<And>r c. req_bcp (reqs st r) = Some c \<Longrightarrow> cp_known (cur, past) c"
    unfolding cps_inv_def by blast
  from assms show "\<And>x. x \<in> set (cp_comp_calls st) \<Longrightarrow> snd x = 0 \<and> cp_known (cur, past) (fst x)"
    unfolding cps_inv_def by blast
  from assms show "\<And>c. c \<in> set past \<Longrightarrow>
           (\<forall>ph. cur (cp_slot c) \<noteq> Some (c, ph)) \<and> cp_pending st c = {} \<and> cp_comp_count st c = 1"
    unfolding cps_inv_def by simp
qed

lemma cps_invI:
  assumes "wb_wf st"
    and "\<And>j. cur j = None \<Longrightarrow> slot_idle st j"
    and "\<And>j cp ph. cur j = Some (cp, ph) \<Longrightarrow> cp_slot cp = j \<and> cp_inv cp ph st"
    and "\<And>r c. req_bcp (reqs st r) = Some c \<Longrightarrow> cp_known (cur, past) c"
    and "\<And>x. x \<in> set (cp_comp_calls st) \<Longrightarrow> snd x = 0 \<and> cp_known (cur, past) (fst x)"
    and "\<And>c. c \<in> set past \<Longrightarrow>
           (\<forall>ph. cur (cp_slot c) \<noteq> Some (c, ph)) \<and> cp_pending st c = {} \<and> cp_comp_count st c = 1"
  shows "cps_inv (cur, past) st"
proof -
  have "\<forall>j. case cur j of None \<Rightarrow> slot_idle st j
                           | Some (cp, ph) \<Rightarrow> cp_slot cp = j \<and> cp_inv cp ph st"
    using assms(2,3) by (auto split: option.splits)
  with assms(1,4,5,6) show ?thesis
    unfolding cps_inv_def by simp
qed

text \<open>An event other than \<open>prepare_cp\<close> leaves the checkpoints in their slots, and each
  of them sees it in its own order.\<close>

lemma cp_mgr_step_phase:
  assumes "cp_mgr_step (cur, past) e = Some (cur', past')" and "\<forall>c. e \<noteq> WbPrepareCp c"
  shows "past' = past"
    and "\<And>j. cur j = None \<Longrightarrow> cur' j = None"
    and "\<And>j cp ph. cur j = Some (cp, ph) \<Longrightarrow> cp_slot cp = j \<Longrightarrow>
           \<exists>ph'. cur' j = Some (cp, ph') \<and> cp_phase_step cp ph e = Some ph'"
    and "\<And>j cp ph'. cur' j = Some (cp, ph') \<Longrightarrow> \<exists>ph. cur j = Some (cp, ph)"
  using assms
  by (cases e; auto split: if_splits option.splits)+

lemma cp_mgr_step_known:
  assumes "cp_mgr_step (cur, past) e = Some (cur', past')" and "\<forall>c. e \<noteq> WbPrepareCp c"
  shows "cp_known (cur', past') c = cp_known (cur, past) c"
proof -
  note p = cp_mgr_step_phase [OF assms]
  have "(\<exists>ph. cur' (cp_slot c) = Some (c, ph)) = (\<exists>ph. cur (cp_slot c) = Some (c, ph))"
    using p(3) [of "cp_slot c" c] p(4) [of "cp_slot c" c] by blast
  then show ?thesis by (simp add: cp_known_def p(1))
qed

text \<open>The checkpoint an event works for is at work on its slot.\<close>

lemma touched_at_work:
  assumes inv: "cps_inv (cur, past) st" and step: "wb_step st e = Inr st'"
      and mgr: "cp_mgr_step (cur, past) e = Some mgr'" and np: "\<forall>c. e \<noteq> WbPrepareCp c"
      and t: "wb_touches st e c"
  shows "\<exists>ph. cur (cp_slot c) = Some (c, ph)"
proof -
  note g = cps_invD [OF inv]
  have iter: "\<exists>ph. cur (cp_slot c) = Some (c, ph)" if it: "flush_iter st j = Some (c, rest)" for j rest
  proof -
    from g(1) it have j: "cp_slot c = j" unfolding wb_wf_def by blast
    show ?thesis
    proof (cases "cur j")
      case None
      from g(2) [OF None] it show ?thesis by (simp add: slot_idle_def)
    next
      case (Some a)
      then obtain cp ph where a: "cur j = Some (cp, ph)" by (cases a) auto
      from g(3) [OF a] have "cp_slot cp = j" and "cp_inv cp ph st" by simp_all
      from cp_invD(4) [OF this(2)] it \<open>cp_slot cp = j\<close> have "c = cp" by simp
      with a j show ?thesis by auto
    qed
  qed
  show ?thesis
  proof (cases e)
    case (WbPrepareCp c')
    with np show ?thesis by simp
  next
    case (WbWrite bn dep c')
    with t mgr show ?thesis by (auto split: if_splits)
  next
    case (WbFlushBegin c')
    with t mgr show ?thesis by (auto split: if_splits)
  next
    case (WbFlushNext j)
    with t obtain rest where "flush_iter st j = Some (c, rest)"
      by (auto split: option.splits)
    then show ?thesis by (rule iter)
  next
    case (WbFlushEnd j)
    with t obtain rest where "flush_iter st j = Some (c, rest)"
      by (auto split: option.splits)
    then show ?thesis by (rule iter)
  next
    case (WbIoDone r)
    with t have b: "req_bcp (reqs st r) = Some c" and s: "req_state (reqs st r) = WB_REQ_SENT"
      by simp_all
    then have "r \<in> cp_pending st c" by (simp add: cp_pending_def)
    with g(6) [of c] have "c \<notin> set past" by auto
    with g(4) [OF b] show ?thesis by (simp add: cp_known_def)
  qed
qed

lemma cps_step_inv_event:
  assumes inv: "cps_inv (cur, past) st" and step: "wb_step st e = Inr st'"
      and mgr: "cp_mgr_step (cur, past) e = Some (cur', past')" and np: "\<forall>c. e \<noteq> WbPrepareCp c"
  shows "cps_inv (cur', past') st'"
proof (rule cps_invI)
  note g = cps_invD [OF inv]
  note p = cp_mgr_step_phase [OF mgr np]
  note known = cp_mgr_step_known [OF mgr np]
  from wb_step_effect [OF g(1) step] obtain c where
    t: "wb_touches st e c" and wf': "wb_wf st'"
    and b: "\<And>x c'. req_bcp (reqs st' x) = Some c' \<Longrightarrow> req_bcp (reqs st x) = Some c' \<or> c' = c"
    and s: "\<And>x. req_bcp (reqs st x) \<noteq> None \<Longrightarrow> req_state (reqs st x) = WB_REQ_COMPL \<Longrightarrow>
                  req_state (reqs st' x) = WB_REQ_COMPL"
    and calls: "cp_comp_calls st' = cp_comp_calls st \<or> cp_comp_calls st' = cp_comp_calls st @ [(c, 0)]"
    and frame: "\<And>k. k \<noteq> cp_slot c \<Longrightarrow>
                  m_dirty_buf_cnt st' k = m_dirty_buf_cnt st k \<and> flush_iter st' k = flush_iter st k"
    by blast
  from touched_at_work [OF inv step mgr np t] obtain phc where
    work: "cur (cp_slot c) = Some (c, phc)" by blast
  then have kc: "cp_known (cur, past) c" by (auto simp: cp_known_def)
  show "wb_wf st'" by (rule wf')
  show "slot_idle st' j" if "cur' j = None" for j
  proof -
    from that p(3) have n: "cur j = None"
      by (metis g(3) option.exhaust option.distinct(1) surj_pair)
    with work have ne: "j \<noteq> cp_slot c" by auto
    from g(2) [OF n] have idle: "slot_idle st j" .
    have "\<not> req_in_slot st' x j" for x
    proof
      assume "req_in_slot st' x j"
      then obtain c' where c': "req_bcp (reqs st' x) = Some c'" "cp_slot c' = j"
        by (auto simp: req_in_slot_def)
      from b [OF c'(1)] show False
      proof
        assume "req_bcp (reqs st x) = Some c'"
        with c'(2) idle show False by (auto simp: slot_idle_def req_in_slot_def)
      next
        assume "c' = c"
        with c'(2) ne show False by simp
      qed
    qed
    with idle frame [OF ne] show ?thesis by (simp add: slot_idle_def)
  qed
  show "cp_slot cp = j \<and> cp_inv cp ph' st'" if "cur' j = Some (cp, ph')" for j cp ph'
  proof -
    from p(4) [OF that] obtain ph where a: "cur j = Some (cp, ph)" by blast
    from g(3) [OF a] have j: "cp_slot cp = j" and ci: "cp_inv cp ph st" by simp_all
    from p(3) [OF a j] that have "cp_phase_step cp ph e = Some ph'" by auto
    from wb_step_inv [OF ci step this] j show ?thesis by simp
  qed
  show "cp_known (cur', past') c'" if "req_bcp (reqs st' r) = Some c'" for r c'
    using b [OF that] g(4) kc by (auto simp: known)
  show "snd x = 0 \<and> cp_known (cur', past') (fst x)" if "x \<in> set (cp_comp_calls st')" for x
  proof (cases "x \<in> set (cp_comp_calls st)")
    case True
    from g(5) [OF True] show ?thesis by (simp add: known)
  next
    case False
    with that calls have "x = (c, 0)" by auto
    with kc show ?thesis by (simp add: known)
  qed
  show "(\<forall>ph. cur' (cp_slot d) \<noteq> Some (d, ph)) \<and> cp_pending st' d = {} \<and> cp_comp_count st' d = 1"
    if "d \<in> set past'" for d
  proof -
    from that have d: "d \<in> set past" by (simp add: p(1))
    note gd = g(6) [OF d]
    from gd work have ne: "d \<noteq> c" by auto
    have "\<forall>ph. cur' (cp_slot d) \<noteq> Some (d, ph)"
      using gd p(4) [of "cp_slot d" d] by blast
    moreover have "cp_pending st' d = {}"
    proof (rule ccontr)
      assume "cp_pending st' d \<noteq> {}"
      then obtain x where x: "req_bcp (reqs st' x) = Some d" "req_state (reqs st' x) \<noteq> WB_REQ_COMPL"
        by (auto simp: cp_pending_def)
      from b [OF x(1)] ne have bx: "req_bcp (reqs st x) = Some d" by auto
      with gd have "req_state (reqs st x) = WB_REQ_COMPL" by (auto simp: cp_pending_def)
      with s [of x] bx x(2) show False by simp
    qed
    moreover have "cp_comp_count st' d = 1"
      using calls gd ne by (auto simp: cp_comp_count_def)
    ultimately show ?thesis by blast
  qed
qed

text \<open>\<open>prepare_cp\<close> on a slot whose checkpoint is over, or that had none.\<close>

lemma cps_step_inv_prepare:
  assumes inv: "cps_inv (cur, past) st" and step: "wb_step st (WbPrepareCp c) = Inr st'"
      and mgr: "cp_mgr_step (cur, past) (WbPrepareCp c) = Some (cur', past')"
  shows "cps_inv (cur', past') st'"
proof -
  note g = cps_invD [OF inv]
  define j where "j = cp_slot c"
  from step have "prepare_cp st (Some c) = Inr st'" by (simp split: sum.splits)
  from prepare_cp_result [OF this] have st': "st' = st"
    and d0: "m_dirty_buf_cnt st j = 0" and l0: "m_req_list st j = []"
    by (simp_all add: j_def)
  from mgr have np: "c \<notin> set past" by (auto split: if_splits)
  from mgr have cur': "cur' = cur(j := Some (c, Filling))"
    by (auto simp: j_def split: if_splits option.splits)
  from mgr have shape: "cur j = None \<and> past' = past \<or>
                        (\<exists>cp. cur j = Some (cp, Flushed) \<and> c \<noteq> cp \<and> past' = cp # past)"
    by (auto simp: j_def split: if_splits option.splits)
  then have notc: "\<forall>ph. cur j \<noteq> Some (c, ph)" by auto
  with np have fresh: "\<not> cp_known (cur, past) c" by (simp add: cp_known_def j_def)
  with g(4) have noreq: "\<And>r. req_bcp (reqs st r) \<noteq> Some c" by blast
  then have pc: "cp_pending st c = {}" by (simp add: cp_pending_def)
  from fresh g(5) have "\<And>x. x \<in> set (cp_comp_calls st) \<Longrightarrow> fst x \<noteq> c" by blast
  then have cc: "cp_comp_count st c = 0" by (simp add: cp_comp_count_def filter_empty_conv)
  have old: "cur j = Some (cp, ph) \<Longrightarrow>
               ph = Flushed \<and> past' = cp # past \<and> cp_slot cp = j \<and> cp_inv cp Flushed st \<and>
               cp_pending st cp = {} \<and> cp_comp_count st cp = 1" for cp ph
  proof -
    assume a: "cur j = Some (cp, ph)"
    with shape have ph: "ph = Flushed" and p: "past' = cp # past" by auto
    from g(3) [OF a] ph have sl: "cp_slot cp = j" and ci: "cp_inv cp Flushed st" by simp_all
    note i = cp_invD [OF ci]
    from i(5) d0 sl have "card (cp_pending st cp) = 0" by simp
    with cp_pending_finite [OF i(1), of cp] have e: "cp_pending st cp = {}" by simp
    with i(6) have "cp_comp_count st cp = 1" by simp
    with ph p sl ci e show ?thesis by simp
  qed
  have quiet: "req_state (reqs st x) = WB_REQ_COMPL" if x: "req_in_slot st x j" for x
  proof (cases "cur j")
    case None
    from g(2) [OF None] x show ?thesis by (simp add: slot_idle_def)
  next
    case (Some a)
    then obtain cp ph where a: "cur j = Some (cp, ph)" by (cases a) auto
    from old [OF a] have sl: "cp_slot cp = j" and ci: "cp_inv cp Flushed st"
      and e: "cp_pending st cp = {}" by simp_all
    show ?thesis
    proof (rule ccontr)
      assume n: "req_state (reqs st x) \<noteq> WB_REQ_COMPL"
      from x obtain c' where c': "req_bcp (reqs st x) = Some c'" "cp_slot c' = j"
        by (auto simp: req_in_slot_def)
      with cp_invD(2) [OF ci] sl n have "c' = cp" by blast
      with c' n have "x \<in> cp_pending st cp" by (simp add: cp_pending_def)
      with e show False by simp
    qed
  qed
  have it: "flush_iter st j = None"
  proof (cases "cur j")
    case None
    from g(2) [OF None] show ?thesis by (simp add: slot_idle_def)
  next
    case (Some a)
    then obtain cp ph where a: "cur j = Some (cp, ph)" by (cases a) auto
    from old [OF a] have sl: "cp_slot cp = j" and ci: "cp_inv cp Flushed st" by simp_all
    from cp_invD(4) [OF ci] sl show ?thesis by (auto split: option.splits)
  qed
  have new: "cp_inv c Filling st"
  proof (rule cp_invI)
    show "wb_wf st" by (rule g(1))
    show "\<forall>r c'. req_bcp (reqs st r) = Some c' \<and> cp_slot c' = cp_slot c \<and>
               req_state (reqs st r) \<noteq> WB_REQ_COMPL \<longrightarrow> c' = c"
      using quiet by (auto simp: req_in_slot_def j_def)
    show "Filling = Filling \<longrightarrow>
            (\<forall>r. req_bcp (reqs st r) = Some c \<longrightarrow> req_state (reqs st r) = WB_REQ_WAITING)"
      using noreq by simp
    show "(case flush_iter st (cp_slot c) of None \<Rightarrow> Filling \<noteq> Flushing
            | Some (c', rest) \<Rightarrow> Filling = Flushing \<and> c' = c)"
      using it by (simp add: j_def)
    show "m_dirty_buf_cnt st (cp_slot c) =
            int (card (cp_pending st c)) + (if Filling = Flushing then 1 else 0)"
      using d0 by (simp add: pc j_def)
    show "cp_comp_count st c = (if Filling = Flushed \<and> cp_pending st c = {} then 1 else 0)"
      using cc by simp
    show "\<forall>x \<in> set (cp_comp_calls st). snd x = 0"
      using g(5) by blast
    show "Filling = Filling \<longrightarrow> (\<forall>r \<in> set (m_req_list st (cp_slot c)). req_bcp (reqs st r) = Some c)"
      using l0 by (simp add: j_def)
  qed
  have known: "cp_known (cur', past') c'" if k: "cp_known (cur, past) c'" for c'
  proof (cases "c' \<in> set past")
    case True
    with shape show ?thesis by (auto simp: cp_known_def)
  next
    case False
    with k obtain ph where w: "cur (cp_slot c') = Some (c', ph)" by (auto simp: cp_known_def)
    show ?thesis
    proof (cases "cp_slot c' = j")
      case True
      with w old [of c' ph] show ?thesis by (simp add: cp_known_def)
    next
      case False
      with w show ?thesis by (auto simp: cp_known_def cur')
    qed
  qed
  show ?thesis
    unfolding st'
  proof (rule cps_invI)
    show "wb_wf st" by (rule g(1))
    show "slot_idle st k" if "cur' k = None" for k
      using that g(2) [of k] by (simp add: cur' split: if_splits)
    show "cp_slot cp = k \<and> cp_inv cp ph st" if "cur' k = Some (cp, ph)" for k cp ph
      using that g(3) [of k cp ph] new by (auto simp: cur' j_def split: if_splits)
    show "cp_known (cur', past') c'" if "req_bcp (reqs st r) = Some c'" for r c'
      using g(4) [OF that] by (rule known)
    show "snd x = 0 \<and> cp_known (cur', past') (fst x)" if "x \<in> set (cp_comp_calls st)" for x
      using g(5) [OF that] known by simp
    show "(\<forall>ph. cur' (cp_slot d) \<noteq> Some (d, ph)) \<and> cp_pending st d = {} \<and> cp_comp_count st d = 1"
      if d: "d \<in> set past'" for d
    proof (cases "d \<in> set past")
      case True
      from g(6) [OF True] np True show ?thesis by (auto simp: cur')
    next
      case False
      with d shape obtain ph where a: "cur j = Some (d, ph)" and ne: "c \<noteq> d" by auto
      from old [OF a] ne show ?thesis by (auto simp: cur')
    qed
  qed
qed

lemma cps_step_inv:
  assumes "cps_inv mgr st" and "wb_step st e = Inr st'" and "cp_mgr_step mgr e = Some mgr'"
  shows "cps_inv mgr' st'"
proof (cases "\<exists>c. e = WbPrepareCp c")
  case True
  with assms show ?thesis
    by (cases mgr; cases mgr') (auto intro: cps_step_inv_prepare)
next
  case False
  with assms show ?thesis
    by (cases mgr; cases mgr') (auto intro: cps_step_inv_event)
qed

lemma cps_run_inv:
  "cps_inv mgr st \<Longrightarrow> cps_run (mgr, st) evs = Some (mgr', st') \<Longrightarrow> cps_inv mgr' st'"
proof (induction evs arbitrary: mgr st)
  case Nil
  then show ?case by simp
next
  case (Cons e es)
  from Cons.prems(2) obtain mgr1 st1 where
    p: "cp_mgr_step mgr e = Some mgr1" and s: "wb_step st e = Inr st1"
    and r: "cps_run (mgr1, st1) es = Some (mgr', st')"
    by (auto split: option.splits sum.splits)
  from Cons.IH [OF cps_step_inv [OF Cons.prems(1) s p] r] show ?case .
qed

lemma WriteBackCache_inv: "cps_inv no_cp WriteBackCache"
  by (simp add: cps_inv_def no_cp_def slot_idle_def wb_wf_def req_in_slot_def
      WriteBackCache_def make_request_def make_object_def)

subsection \<open>The callback of a checkpoint\<close>

lemmas wb_defs = wb_write_def create_wb_req_def update_wb_req_def add_dependent_def
  flush_begin_def flush_next_def flush_end_def release_req_def complete_req_def
  writeBack_completion_internal_def prepare_cp_def cp_slot_def MAX_CP_CNT_def WriteBackCache_def
  make_request_def make_object_def no_cp_def Let_def

lemma dependent_writes_before_last_completion:
  "\<exists>cur st. cps_run (no_cp, WriteBackCache) (butlast dependent_writes) = Some ((cur, []), st) \<and>
        cur 0 = Some (\<lparr>cp_id = 4\<rparr>, Flushed) \<and>
        \<not> cp_all_written st \<lparr>cp_id = 4\<rparr> \<and> blkstore_writes st = [0, 1, 2]"
  by (simp add: dependent_writes_def wb_defs cp_all_written_def) (rule exI [of _ 2], simp)

lemma empty_checkpoint_after_run:
  "\<exists>cur st. cps_run (no_cp, WriteBackCache) empty_checkpoint_after = Some ((cur, [\<lparr>cp_id = 4\<rparr>]), st) \<and>
        cur 0 = Some (\<lparr>cp_id = 6\<rparr>, Flushed) \<and> cur 1 = None \<and>
        cp_all_written st \<lparr>cp_id = 6\<rparr> \<and> blkstore_writes st = [0, 1, 2]"
  by (simp add: empty_checkpoint_after_def dependent_writes_def wb_defs cp_all_written_def)

lemma prepare_cp_run:
  "\<exists>cur st. cps_run (no_cp, WriteBackCache) [WbPrepareCp \<lparr>cp_id = 5\<rparr>] = Some ((cur, []), st) \<and>
        cur 1 = Some (\<lparr>cp_id = 5\<rparr>, Filling) \<and> st = WriteBackCache"
  by (simp add: wb_defs)

text \<open>
  Claim C9.  Take a new cache and the checkpoints of a B-tree as \<open>cp_mgr_step\<close> runs them:
  \<open>prepare_cp\<close> brings a new checkpoint to a slot that is free or whose checkpoint has had
  its \<open>flush_buffers\<close>, nodes are written for the checkpoint at work on the slot, and
  \<open>flush_buffers\<close> runs once for it; the parts of \<open>flush_buffers\<close>, the write completions
  and the work on the two slots interleave in any way.  At every moment of such a run

    \<^item> the checkpoint-complete callback was called exactly once for each checkpoint
      that has left its slot to a later one;

    \<^item> for the checkpoint \<open>cp\<close> at work on a slot the callback has been called exactly
      once if \<open>flush_buffers(cp)\<close> has dropped its pseudo-request and every request of
      \<open>cp\<close> is \<open>COMPL\<close>, and not at all otherwise; the counter
      \<open>m_dirty_buf_cnt[cp_id % MAX_CP_CNT]\<close> is 0 exactly when no \<open>flush_buffers\<close> is
      running on the slot and every request of \<open>cp\<close> is \<open>COMPL\<close>; and when no node was
      written for \<open>cp\<close>, \<open>flush_buffers(cp)\<close> itself calls the callback;

    \<^item> the callback was not called for any other checkpoint;

    \<^item> at each call of the callback the dirty-buffer counter of the slot was 0.
\<close>

theorem cp_complete_fires_once:
  assumes "cps_run (no_cp, WriteBackCache) evs = Some ((cur, past), st)"
  shows
    "(\<forall>c \<in> set past. cp_comp_count st c = 1) \<and>
     (\<forall>cp ph. cur (cp_slot cp) = Some (cp, ph) \<longrightarrow>
        cp_comp_count st cp = (if ph = Flushed \<and> cp_all_written st cp then 1 else 0) \<and>
        ((m_dirty_buf_cnt st (cp_slot cp) = 0) = (ph \<noteq> Flushing \<and> cp_all_written st cp)) \<and>
        (ph = Filling \<and> (\<forall>r. req_bcp (reqs st r) \<noteq> Some cp) \<longrightarrow>
           cp_comp_calls (flush_buffers st cp) = cp_comp_calls st @ [(cp, 0)])) \<and>
     (\<forall>c. \<not> cp_known (cur, past) c \<longrightarrow> cp_comp_count st c = 0) \<and>
     (\<forall>x \<in> set (cp_comp_calls st). snd x = 0)"
proof -
  from cps_run_inv [OF WriteBackCache_inv assms] have inv: "cps_inv (cur, past) st" .
  note g = cps_invD [OF inv]
  have c1: "\<forall>c \<in> set past. cp_comp_count st c = 1"
    using g(6) by blast
  have c2: "\<forall>cp ph. cur (cp_slot cp) = Some (cp, ph) \<longrightarrow>
        cp_comp_count st cp = (if ph = Flushed \<and> cp_all_written st cp then 1 else 0) \<and>
        ((m_dirty_buf_cnt st (cp_slot cp) = 0) = (ph \<noteq> Flushing \<and> cp_all_written st cp)) \<and>
        (ph = Filling \<and> (\<forall>r. req_bcp (reqs st r) \<noteq> Some cp) \<longrightarrow>
           cp_comp_calls (flush_buffers st cp) = cp_comp_calls st @ [(cp, 0)])"
  proof (intro allI impI)
    fix cp ph assume "cur (cp_slot cp) = Some (cp, ph)"
    from g(3) [OF this] have ci: "cp_inv cp ph st" by simp
    note i = cp_invD [OF ci]
    note aw = cp_all_written_pending [OF i(1), of cp]
    have fin: "finite (cp_pending st cp)" by (rule cp_pending_finite [OF i(1)])
    have a: "cp_comp_count st cp = (if ph = Flushed \<and> cp_all_written st cp then 1 else 0)"
      using i(6) by (simp add: aw)
    have b: "(m_dirty_buf_cnt st (cp_slot cp) = 0) = (ph \<noteq> Flushing \<and> cp_all_written st cp)"
      using fin by (simp add: i(5) aw)
    have c: "ph = Filling \<and> (\<forall>r. req_bcp (reqs st r) \<noteq> Some cp) \<longrightarrow>
        cp_comp_calls (flush_buffers st cp) = cp_comp_calls st @ [(cp, 0)]"
    proof
      assume h: "ph = Filling \<and> (\<forall>r. req_bcp (reqs st r) \<noteq> Some cp)"
      then have "cp_pending st cp = {}" by (simp add: cp_pending_def)
      with ci h show "cp_comp_calls (flush_buffers st cp) = cp_comp_calls st @ [(cp, 0)]"
        by (simp add: flush_buffers_no_dirty_node)
    qed
    from a b c show "cp_comp_count st cp = (if ph = Flushed \<and> cp_all_written st cp then 1 else 0) \<and>
        ((m_dirty_buf_cnt st (cp_slot cp) = 0) = (ph \<noteq> Flushing \<and> cp_all_written st cp)) \<and>
        (ph = Filling \<and> (\<forall>r. req_bcp (reqs st r) \<noteq> Some cp) \<longrightarrow>
           cp_comp_calls (flush_buffers st cp) = cp_comp_calls st @ [(cp, 0)])"
      by blast
  qed
  have c3: "\<forall>c. \<not> cp_known (cur, past) c \<longrightarrow> cp_comp_count st c = 0"
  proof (intro allI impI)
    fix c assume "\<not> cp_known (cur, past) c"
    with g(5) have "\<And>x. x \<in> set (cp_comp_calls st) \<Longrightarrow> fst x \<noteq> c" by blast
    then show "cp_comp_count st c = 0" by (simp add: cp_comp_count_def filter_empty_conv)
  qed
  have c4: "\<forall>x \<in> set (cp_comp_calls st). snd x = 0"
    using g(5) by blast
  from c1 c2 c3 c4 show ?thesis by blast
qed

theorem cp_complete_fires_once_witness:
  "(\<exists>cur st. cps_run (no_cp, WriteBackCache) empty_checkpoint_after = Some ((cur, [\<lparr>cp_id = 4\<rparr>]), st) \<and>
         cp_comp_count st \<lparr>cp_id = 4\<rparr> = 1 \<and> cp_comp_count st \<lparr>cp_id = 6\<rparr> = 1 \<and>
         cp_comp_count st \<lparr>cp_id = 5\<rparr> = 0 \<and> m_dirty_buf_cnt st 0 = 0) \<and>
   (\<exists>cur st. cps_run (no_cp, WriteBackCache) (butlast dependent_writes) = Some ((cur, []), st) \<and>
         cp_comp_count st \<lparr>cp_id = 4\<rparr> = 0 \<and> m_dirty_buf_cnt st 0 \<noteq> 0) \<and>
   (\<exists>cur st. cps_run (no_cp, WriteBackCache) [WbPrepareCp \<lparr>cp_id = 5\<rparr>] = Some ((cur, []), st) \<and>
         cp_comp_calls (flush_buffers st \<lparr>cp_id = 5\<rparr>) = [(\<lparr>cp_id = 5\<rparr>, 0)])"
proof -
  from empty_checkpoint_after_run obtain cur st where
    run: "cps_run (no_cp, WriteBackCache) empty_checkpoint_after = Some ((cur, [\<lparr>cp_id = 4\<rparr>]), st)"
    and work: "cur 0 = Some (\<lparr>cp_id = 6\<rparr>, Flushed)" and free: "cur 1 = None"
    and written: "cp_all_written st \<lparr>cp_id = 6\<rparr>" by blast
  from free have unknown: "\<not> cp_known (cur, [\<lparr>cp_id = 4\<rparr>]) \<lparr>cp_id = 5\<rparr>"
    by (simp add: cp_known_def cp_slot_def MAX_CP_CNT_def)
  from work have slot: "cur (cp_slot \<lparr>cp_id = 6\<rparr>) = Some (\<lparr>cp_id = 6\<rparr>, Flushed)"
    by (simp add: cp_slot_def MAX_CP_CNT_def)
  from cp_complete_fires_once [OF run] slot written unknown
  have a: "cp_comp_count st \<lparr>cp_id = 4\<rparr> = 1 \<and> cp_comp_count st \<lparr>cp_id = 6\<rparr> = 1 \<and>
           cp_comp_count st \<lparr>cp_id = 5\<rparr> = 0 \<and> m_dirty_buf_cnt st (cp_slot \<lparr>cp_id = 6\<rparr>) = 0"
    by (simp del: not_None_eq)
  then have a': "cp_comp_count st \<lparr>cp_id = 4\<rparr> = 1 \<and> cp_comp_count st \<lparr>cp_id = 6\<rparr> = 1 \<and>
           cp_comp_count st \<lparr>cp_id = 5\<rparr> = 0 \<and> m_dirty_buf_cnt st 0 = 0"
    by (simp add: cp_slot_def MAX_CP_CNT_def)
  from dependent_writes_before_last_completion obtain cur2 st2 where
    run2: "cps_run (no_cp, WriteBackCache) (butlast dependent_writes) = Some ((cur2, []), st2)"
    and work2: "cur2 0 = Some (\<lparr>cp_id = 4\<rparr>, Flushed)"
    and pending: "\<not> cp_all_written st2 \<lparr>cp_id = 4\<rparr>" by blast
  from work2 have slot2: "cur2 (cp_slot \<lparr>cp_id = 4\<rparr>) = Some (\<lparr>cp_id = 4\<rparr>, Flushed)"
    by (simp add: cp_slot_def MAX_CP_CNT_def)
  from cp_complete_fires_once [OF run2] slot2 pending
  have "cp_comp_count st2 \<lparr>cp_id = 4\<rparr> = 0 \<and> m_dirty_buf_cnt st2 (cp_slot \<lparr>cp_id = 4\<rparr>) \<noteq> 0"
    by simp
  then have b: "cp_comp_count st2 \<lparr>cp_id = 4\<rparr> = 0 \<and> m_dirty_buf_cnt st2 0 \<noteq> 0"
    by (simp add: cp_slot_def MAX_CP_CNT_def)
  from prepare_cp_run obtain cur3 st3 where
    run3: "cps_run (no_cp, WriteBackCache) [WbPrepareCp \<lparr>cp_id = 5\<rparr>] = Some ((cur3, []), st3)"
    and work3: "cur3 1 = Some (\<lparr>cp_id = 5\<rparr>, Filling)" and st3: "st3 = WriteBackCache" by blast
  from work3 have slot3: "cur3 (cp_slot \<lparr>cp_id = 5\<rparr>) = Some (\<lparr>cp_id = 5\<rparr>, Filling)"
    by (simp add: cp_slot_def MAX_CP_CNT_def)
  have none: "\<forall>r. req_bcp (reqs st3 r) \<noteq> Some \<lparr>cp_id = 5\<rparr>"
    by (simp add: st3 WriteBackCache_def make_request_def)
  have calls: "cp_comp_calls st3 = []"
    by (simp add: st3 WriteBackCache_def)
  from cp_complete_fires_once [OF run3] slot3 none
  have "cp_comp_calls (flush_buffers st3 \<lparr>cp_id = 5\<rparr>) = cp_comp_calls st3 @ [(\<lparr>cp_id = 5\<rparr>, 0)]"
    by blast
  then have c: "cp_comp_calls (flush_buffers st3 \<lparr>cp_id = 5\<rparr>) = [(\<lparr>cp_id = 5\<rparr>, 0)]"
    by (simp add: calls)
  from run a' run2 b run3 c show ?thesis by blast
qed

end
